theory Spec2Isabelle
  imports Main
begin

section \<open>The HTTP multiplexor of main.go as an interleaving of goroutine steps\<close>

text \<open>
  The program is one HTTP handler. Every request runs the handler in a goroutine of its
  own; the handler spawns one \<^verbatim>\<open>fetchURL\<close> goroutine per URL and one
  goroutine that waits on the \<^verbatim>\<open>sync.WaitGroup\<close>. The model gives
  every goroutine a program counter that names the source line it is about to run, and
  one event per atomic action. What the standard library and the network answer
  (\<^verbatim>\<open>ioutil.ReadAll\<close>, \<^verbatim>\<open>json.Unmarshal\<close>,
  \<^verbatim>\<open>http.NewRequest\<close>, \<^verbatim>\<open>client.Do\<close>,
  \<^verbatim>\<open>w.Write\<close>) is carried by the event, so a list of events is one
  schedule together with one behaviour of the environment.
\<close>

subsection \<open>Constants (main.go, lines 17 to 25)\<close>

definition MaxSimultaneousRequests :: nat where
  "MaxSimultaneousRequests = 100"

definition MaxURLs :: nat where
  "MaxURLs = 20"

definition MaxSimultaneousConnectionsPerRequest :: nat where
  "MaxSimultaneousConnectionsPerRequest = 4"

definition MaxBodySize :: nat where
  "MaxBodySize = MaxURLs * (2048 + 4) + 3"

subsection \<open>Data (main.go, lines 27 to 32)\<close>

type_synonym URL = string

text \<open>A Go \<^verbatim>\<open>error\<close> is represented by its message, \<^verbatim>\<open>err.Error()\<close>.\<close>

type_synonym err = string

record Job =
  URL :: URL
  Status :: int

text \<open>What the handler has handed to the \<^verbatim>\<open>http.ResponseWriter\<close>.\<close>

datatype payload = Nothing | Text string | JSON "Job list"

subsection \<open>Program counters\<close>

text \<open>
  The handler (lines 37 to 96). \<open>H_Defer p\<close> is the handler after its body has ended,
  by a \<^verbatim>\<open>return\<close> (\<open>p = None\<close>) or by the panic of
  \<^verbatim>\<open>checkError\<close> (\<open>p = Some e\<close>), with the deferred receive from
  \<^verbatim>\<open>reqSemaphore\<close> of line 41 still to run.
\<close>

datatype hstate =
    H_Acquire
  | H_ReadAll
  | H_CloseBody
  | H_Unmarshal
  | H_Loop
  | H_Select
  | H_ErrBranch err
  | H_FinBranch
  | H_SetClientError err
  | H_Defer "err option"
  | H_Exit

text \<open>How the body of \<^verbatim>\<open>fetchURL\<close> ended: the \<^verbatim>\<open>return\<close> of line
  128 or 133, the \<^verbatim>\<open>return\<close> of line 140, or a panic of \<^verbatim>\<open>wg.Done\<close>.\<close>

datatype ending = RetErr | RetOk | Panic

text \<open>
  \<^verbatim>\<open>fetchURL\<close> (lines 119 to 141). \<open>F_SendErr e\<close> is the goroutine blocked in
  \<^verbatim>\<open>errChan <- err\<close>; \<open>F_SetStatus c\<close> holds the response's status code
  before line 138; \<open>F_Defer\<close> has the deferred receive from \<^verbatim>\<open>sem\<close> of
  line 121 still to run.
\<close>

datatype fstate =
    F_Acquire
  | F_NewRequest
  | F_Do
  | F_SendErr err
  | F_SetStatus int
  | F_WgDone
  | F_Defer ending
  | F_Exit ending

text \<open>The goroutine of lines 79 to 82.\<close>

datatype wstate = W_None | W_Wait | W_Send | W_Exit

subsection \<open>Events\<close>

text \<open>
  One event per atomic action; the lines are those of main.go.
  \<^item> The handler: \<open>Admit\<close> (line 40); \<open>ReadAll b e\<close> (47 to 52, the stream delivering
    \<open>b\<close> and ending with \<open>e\<close>); \<open>CloseBody r\<close> (53, \<open>r\<close> the result of
    \<^verbatim>\<open>r.Body.Close\<close>); \<open>Unmarshal r\<close> (55 to 69: \<open>r\<close> is what the decoder returned;
    then the check of the count and, if it passes, the channels, the WaitGroup and
    \<^verbatim>\<open>wg.Add\<close>); \<open>Spawn\<close> (74 to 76, one iteration of the loop); \<open>GoWaiter\<close> (79,
    after which the handler stands at the select); \<open>RecvErr i\<close> (85); \<open>RecvFin\<close> (89);
    \<open>CtxDone\<close> (86); \<open>WriteError r\<close> (\<^verbatim>\<open>setClientError\<close>, called in line 60 or 87,
    \<open>r\<close> the result of \<^verbatim>\<open>w.Write\<close>); \<open>Encode r\<close> (90 to 94, \<open>r\<close> the result of
    \<^verbatim>\<open>Encode\<close>); \<open>ReleaseReq\<close> (the deferred function of line 41).
  \<^item> Fetcher \<open>i\<close>: \<open>Acquire i\<close> (120); \<open>NewRequest i r\<close> (125); \<open>Do i r\<close> (130);
    \<open>SetStatus i\<close> (138); \<open>WgDone i\<close> (139); \<open>Release i\<close> (the deferred function of
    line 121).
  \<^item> The waiter: \<open>WaitReturns\<close> (80).
  \<^item> The environment: \<open>Cancel\<close>, the cancellation of the request's context (the client
    goes away, or the server cancels it once the handler has returned).

  \<^verbatim>\<open>errChan\<close> and \<^verbatim>\<open>finChan\<close> are unbuffered: a send happens together with the
  receive that takes it. \<open>RecvErr i\<close> is the receive of line 85 together with the send
  of line 127 or 132 in fetcher \<open>i\<close>; \<open>RecvFin\<close> is the receive of line 89 together with
  the send of line 81. With both a sender on \<^verbatim>\<open>errChan\<close> and one on \<^verbatim>\<open>finChan\<close>
  waiting, Go's select may take either, and so may the model.
\<close>

datatype event =
    Admit
  | ReadAll string "err option"
  | CloseBody "err option"
  | Unmarshal "err + URL list"
  | Spawn
  | GoWaiter
  | RecvErr nat
  | RecvFin
  | CtxDone
  | WriteError "err option"
  | Encode "err option"
  | ReleaseReq
  | Acquire nat
  | NewRequest nat "err option"
  | Do nat "err + int"
  | SetStatus nat
  | WgDone nat
  | Release nat
  | WaitReturns
  | Cancel

subsection \<open>The state of one request\<close>

text \<open>
  \<open>urlSemaphore\<close> is the number of elements in the buffered channel of line 64, \<open>wg\<close>
  the counter of the WaitGroup, \<open>jobs\<close> the Job objects in the order of the slice of
  line 71 (fetcher \<open>i\<close> holds the pointer to \<open>jobs ! i\<close>), \<open>cancelled\<close> whether
  \<^verbatim>\<open>r.Context()\<close> is cancelled, \<open>wcode\<close> and \<open>wbody\<close> what the handler
  wrote to the response.
\<close>

record req =
  hpc :: hstate
  body :: string
  urls :: "URL list"
  jobs :: "Job list"
  fpc :: "fstate list"
  urlSemaphore :: nat
  wg :: int
  wpc :: wstate
  cancelled :: bool
  wcode :: "nat option"
  wbody :: payload

definition req_init :: req where
  "req_init = \<lparr>hpc = H_Acquire, body = [], urls = [], jobs = [], fpc = [],
     urlSemaphore = 0, wg = 0, wpc = W_None, cancelled = False,
     wcode = None, wbody = Nothing\<rparr>"

subsection \<open>The handler's sequential parts\<close>

text \<open>
  Line 47, \<^verbatim>\<open>ioutil.ReadAll(io.LimitReader(r.Body, MaxBodySize))\<close>. The event
  \<open>ReadAll b e\<close> is a stream that delivers the bytes \<open>b\<close> and no more, and ends with
  \<open>e\<close> (\<open>None\<close> for EOF); if \<open>b\<close> has \<open>MaxBodySize\<close> bytes or more, \<open>e\<close> is what
  the read that delivers the last byte returns with it. The limited reader never asks
  for more than \<open>MaxBodySize\<close> bytes and reports EOF itself once it has passed them
  on: of a longer stream the handler sees the first \<open>MaxBodySize\<close> bytes and no
  error. Of a stream of at most \<open>MaxBodySize\<close> bytes it sees every byte and then
  \<open>e\<close>, because the limited reader passes on whatever the read of the stream
  returned. (A stream of exactly \<open>MaxBodySize\<close> bytes that would return its error
  in a further read is, for the handler, that stream ending with EOF: the further
  read is never made.)
\<close>

definition read_all_limit :: "string \<Rightarrow> err option \<Rightarrow> err + string" where
  "read_all_limit b e =
     (if MaxBodySize < length b then Inr (take MaxBodySize b)
      else case e of None \<Rightarrow> Inr b | Some x \<Rightarrow> Inl x)"

definition too_many :: err where
  "too_many = ''there is to much urls, please send no more than 20''"

text \<open>Lines 55 to 58: the decoder's answer, then the only check made on the list.\<close>

definition validate :: "err + URL list \<Rightarrow> err + URL list" where
  "validate r =
     (case r of
        Inl e \<Rightarrow> Inl e
      | Inr us \<Rightarrow> if length us > MaxURLs then Inl too_many else Inr us)"

subsection \<open>The bytes of a response\<close>

fun commas :: "string list \<Rightarrow> string" where
  "commas [] = []"
| "commas [u] = u"
| "commas (u # v # us) = u @ '','' @ commas (v # us)"

text \<open>
  \<^verbatim>\<open>json.NewEncoder(w).Encode(jobs)\<close> (encoding/json, not part of the repository): a
  nil slice is rendered as \<^verbatim>\<open>null\<close>, any other slice as an array, and a newline
  follows. The slice of line 71 is nil exactly when no Job was appended, that is when
  the list is empty. \<open>enc\<close> renders one Job.
\<close>

definition json_Encode :: "(Job \<Rightarrow> string) \<Rightarrow> Job list \<Rightarrow> string" where
  "json_Encode enc js =
     (if js = [] then ''null'' else ''['' @ commas (map enc js) @ '']'') @ [CHR 0x0A]"

text \<open>The bytes of the response body.\<close>

fun rendered :: "(Job \<Rightarrow> string) \<Rightarrow> payload \<Rightarrow> string" where
  "rendered enc Nothing = []"
| "rendered enc (Text x) = x"
| "rendered enc (JSON js) = json_Encode enc js"

subsection \<open>One step of one request\<close>

text \<open>
  \<open>None\<close>: the event cannot happen in this state (the goroutine is elsewhere, or it
  is blocked). A send to \<^verbatim>\<open>urlSemaphore\<close> blocks while the channel holds
  \<open>MaxSimultaneousConnectionsPerRequest\<close> elements. \<^verbatim>\<open>client.Do\<close> may return an
  error or a response at any time; this covers the timeout and the error that a
  cancelled context causes, and everything proved holds whichever it returns.
  \<^verbatim>\<open>wg.Done\<close> panics when the counter would become negative.
\<close>

fun step :: "req \<Rightarrow> event \<Rightarrow> req option" where
  "step s Admit =
     (if hpc s = H_Acquire then Some (s\<lparr>hpc := H_ReadAll\<rparr>) else None)"
| "step s (ReadAll b e) =
     (if hpc s = H_ReadAll then
        (case read_all_limit b e of
           Inl x \<Rightarrow> Some (s\<lparr>hpc := H_Defer None, wcode := Some 400\<rparr>)
         | Inr bs \<Rightarrow> Some (s\<lparr>hpc := H_CloseBody, body := bs\<rparr>))
      else None)"
| "step s (CloseBody r) =
     (if hpc s = H_CloseBody then
        (case r of
           None \<Rightarrow> Some (s\<lparr>hpc := H_Unmarshal\<rparr>)
         | Some x \<Rightarrow> Some (s\<lparr>hpc := H_Defer (Some x)\<rparr>))
      else None)"
| "step s (Unmarshal r) =
     (if hpc s = H_Unmarshal then
        (case validate r of
           Inl x \<Rightarrow> Some (s\<lparr>hpc := H_SetClientError x\<rparr>)
         | Inr us \<Rightarrow> Some (s\<lparr>hpc := H_Loop, urls := us, urlSemaphore := 0,
                               wg := int (length us), jobs := []\<rparr>))
      else None)"
| "step s Spawn =
     (if hpc s = H_Loop \<and> length (jobs s) < length (urls s) then
        Some (s\<lparr>jobs := jobs s @ [\<lparr>URL = urls s ! length (jobs s), Status = 0\<rparr>],
                fpc := fpc s @ [F_Acquire]\<rparr>)
      else None)"
| "step s GoWaiter =
     (if hpc s = H_Loop \<and> \<not> length (jobs s) < length (urls s) then
        Some (s\<lparr>hpc := H_Select, wpc := W_Wait\<rparr>)
      else None)"
| "step s (RecvErr i) =
     (if hpc s = H_Select \<and> i < length (fpc s) then
        (case fpc s ! i of
           F_SendErr x \<Rightarrow> Some (s\<lparr>hpc := H_ErrBranch x, fpc := (fpc s)[i := F_Defer RetErr]\<rparr>)
         | _ \<Rightarrow> None)
      else None)"
| "step s RecvFin =
     (if hpc s = H_Select \<and> wpc s = W_Send then
        Some (s\<lparr>hpc := H_FinBranch, wpc := W_Exit\<rparr>)
      else None)"
| "step s CtxDone =
     (case hpc s of
        H_ErrBranch x \<Rightarrow> Some (s\<lparr>hpc := H_SetClientError x\<rparr>)
      | _ \<Rightarrow> None)"
| "step s (WriteError r) =
     (case hpc s of
        H_SetClientError x \<Rightarrow>
          (case r of
             None \<Rightarrow> Some (s\<lparr>hpc := H_Defer None, wcode := Some 404, wbody := Text x\<rparr>)
           | Some y \<Rightarrow> Some (s\<lparr>hpc := H_Defer (Some y), wcode := Some 404\<rparr>))
      | _ \<Rightarrow> None)"
| "step s (Encode r) =
     (if hpc s = H_FinBranch then
        (case r of
           None \<Rightarrow> Some (s\<lparr>hpc := H_Defer None, wcode := Some 200, wbody := JSON (jobs s)\<rparr>)
         | Some y \<Rightarrow> Some (s\<lparr>hpc := H_Defer (Some y), wcode := Some 200\<rparr>))
      else None)"
| "step s ReleaseReq =
     (case hpc s of
        H_Defer p \<Rightarrow> Some (s\<lparr>hpc := H_Exit\<rparr>)
      | _ \<Rightarrow> None)"
| "step s (Acquire i) =
     (if i < length (fpc s) \<and> fpc s ! i = F_Acquire
         \<and> urlSemaphore s < MaxSimultaneousConnectionsPerRequest then
        Some (s\<lparr>fpc := (fpc s)[i := F_NewRequest], urlSemaphore := urlSemaphore s + 1\<rparr>)
      else None)"
| "step s (NewRequest i r) =
     (if i < length (fpc s) \<and> fpc s ! i = F_NewRequest then
        (case r of
           None \<Rightarrow> Some (s\<lparr>fpc := (fpc s)[i := F_Do]\<rparr>)
         | Some x \<Rightarrow> Some (s\<lparr>fpc := (fpc s)[i := F_SendErr x]\<rparr>))
      else None)"
| "step s (Do i r) =
     (if i < length (fpc s) \<and> fpc s ! i = F_Do then
        (case r of
           Inl x \<Rightarrow> Some (s\<lparr>fpc := (fpc s)[i := F_SendErr x]\<rparr>)
         | Inr c \<Rightarrow> Some (s\<lparr>fpc := (fpc s)[i := F_SetStatus c]\<rparr>))
      else None)"
| "step s (SetStatus i) =
     (if i < length (fpc s) \<and> i < length (jobs s) then
        (case fpc s ! i of
           F_SetStatus c \<Rightarrow>
             Some (s\<lparr>jobs := (jobs s)[i := (jobs s ! i)\<lparr>Status := c\<rparr>],
                     fpc := (fpc s)[i := F_WgDone]\<rparr>)
         | _ \<Rightarrow> None)
      else None)"
| "step s (WgDone i) =
     (if i < length (fpc s) \<and> fpc s ! i = F_WgDone then
        (if wg s - 1 < 0 then Some (s\<lparr>wg := wg s - 1, fpc := (fpc s)[i := F_Defer Panic]\<rparr>)
         else Some (s\<lparr>wg := wg s - 1, fpc := (fpc s)[i := F_Defer RetOk]\<rparr>))
      else None)"
| "step s (Release i) =
     (if i < length (fpc s) \<and> 0 < urlSemaphore s then
        (case fpc s ! i of
           F_Defer x \<Rightarrow>
             Some (s\<lparr>fpc := (fpc s)[i := F_Exit x], urlSemaphore := urlSemaphore s - 1\<rparr>)
         | _ \<Rightarrow> None)
      else None)"
| "step s WaitReturns =
     (if wpc s = W_Wait \<and> wg s = 0 then Some (s\<lparr>wpc := W_Send\<rparr>) else None)"
| "step s Cancel =
     (if cancelled s then None else Some (s\<lparr>cancelled := True\<rparr>))"

text \<open>A schedule, run from a state; \<open>None\<close> when some event of it cannot happen.\<close>

fun run :: "req \<Rightarrow> event list \<Rightarrow> req option" where
  "run s [] = Some s"
| "run s (e # es) = (case step s e of None \<Rightarrow> None | Some s' \<Rightarrow> run s' es)"

subsection \<open>All requests together\<close>

text \<open>
  \<^verbatim>\<open>reqSemaphore\<close> (line 35) is shared by all requests; its content is a number.
  A request's \<open>Admit\<close> is the send of line 40, which blocks while the channel holds
  \<open>MaxSimultaneousRequests\<close> elements; its \<open>ReleaseReq\<close> is the deferred receive of
  line 41. Every other event touches its own request only.
\<close>

record sys =
  reqSemaphore :: nat
  reqs :: "req list"

fun admitted :: "hstate \<Rightarrow> bool" where
  "admitted H_Acquire = False"
| "admitted H_Exit = False"
| "admitted pc = True"

definition sys_init :: "nat \<Rightarrow> sys" where
  "sys_init n = \<lparr>reqSemaphore = 0, reqs = replicate n req_init\<rparr>"

fun sys_step :: "sys \<Rightarrow> nat \<times> event \<Rightarrow> sys option" where
  "sys_step S (r, e) =
     (if r < length (reqs S) then
        (case step (reqs S ! r) e of
           None \<Rightarrow> None
         | Some q \<Rightarrow>
             (if e = Admit then
                (if reqSemaphore S < MaxSimultaneousRequests then
                   Some \<lparr>reqSemaphore = reqSemaphore S + 1, reqs = (reqs S)[r := q]\<rparr>
                 else None)
              else if e = ReleaseReq then
                (if 0 < reqSemaphore S then
                   Some \<lparr>reqSemaphore = reqSemaphore S - 1, reqs = (reqs S)[r := q]\<rparr>
                 else None)
              else Some \<lparr>reqSemaphore = reqSemaphore S, reqs = (reqs S)[r := q]\<rparr>))
      else None)"

fun sys_run :: "sys \<Rightarrow> (nat \<times> event) list \<Rightarrow> sys option" where
  "sys_run S [] = Some S"
| "sys_run S (x # xs) = (case sys_step S x of None \<Rightarrow> None | Some S' \<Rightarrow> sys_run S' xs)"

subsection \<open>Invariants of a request\<close>

fun holds :: "fstate \<Rightarrow> bool" where
  "holds F_Acquire = False"
| "holds (F_Exit x) = False"
| "holds pc = True"

fun done_ok :: "fstate \<Rightarrow> bool" where
  "done_ok (F_Defer x) = (x = RetOk)"
| "done_ok (F_Exit x) = (x = RetOk)"
| "done_ok pc = False"

fun panicked :: "fstate \<Rightarrow> bool" where
  "panicked (F_Defer x) = (x = Panic)"
| "panicked (F_Exit x) = (x = Panic)"
| "panicked pc = False"

text \<open>The handler's body has ended (the deferred receive may still be to come).\<close>

fun returned :: "hstate \<Rightarrow> bool" where
  "returned (H_Defer p) = True"
| "returned H_Exit = True"
| "returned pc = False"

fun pre_loop :: "hstate \<Rightarrow> bool" where
  "pre_loop H_Acquire = True"
| "pre_loop H_ReadAll = True"
| "pre_loop H_CloseBody = True"
| "pre_loop H_Unmarshal = True"
| "pre_loop pc = False"

definition inv_shape :: "req \<Rightarrow> bool" where
  "inv_shape s \<longleftrightarrow>
     length (fpc s) = length (jobs s) \<and>
     length (jobs s) \<le> length (urls s) \<and>
     map URL (jobs s) = take (length (jobs s)) (urls s) \<and>
     (pre_loop (hpc s) \<longrightarrow> fpc s = [] \<and> wpc s = W_None) \<and>
     (hpc s = H_Loop \<longrightarrow> wpc s = W_None) \<and>
     (wpc s \<noteq> W_None \<longrightarrow> length (jobs s) = length (urls s)) \<and>
     (wpc s = W_None \<longrightarrow> fpc s = [] \<or> hpc s = H_Loop) \<and>
     length (body s) \<le> MaxBodySize \<and>
     length (urls s) \<le> MaxURLs"

definition inv_sem :: "req \<Rightarrow> bool" where
  "inv_sem s \<longleftrightarrow>
     urlSemaphore s = length (filter holds (fpc s)) \<and>
     urlSemaphore s \<le> MaxSimultaneousConnectionsPerRequest"

definition inv_wg :: "req \<Rightarrow> bool" where
  "inv_wg s \<longleftrightarrow>
     wg s + int (length (filter done_ok (fpc s))) = int (length (urls s)) \<and>
     (\<forall>pc \<in> set (fpc s). \<not> panicked pc) \<and>
     (wpc s = W_Send \<or> wpc s = W_Exit \<longrightarrow> wg s = 0)"

definition inv_resp :: "req \<Rightarrow> bool" where
  "inv_resp s \<longleftrightarrow>
     (hpc s = H_FinBranch \<longrightarrow> wpc s = W_Exit) \<and>
     (wbody s \<noteq> Nothing \<longrightarrow> returned (hpc s)) \<and>
     (\<forall>js. wbody s = JSON js \<longrightarrow> wpc s = W_Exit \<and> js = jobs s \<and> wcode s = Some 200) \<and>
     (\<forall>m. wbody s = Text m \<longrightarrow> wcode s = Some 404)"

text \<open>The handler has left its select: it will not receive from \<^verbatim>\<open>errChan\<close>
  or \<^verbatim>\<open>finChan\<close> again.\<close>

fun after_select :: "hstate \<Rightarrow> bool" where
  "after_select (H_ErrBranch x) = True"
| "after_select H_FinBranch = True"
| "after_select (H_SetClientError x) = True"
| "after_select (H_Defer p) = True"
| "after_select H_Exit = True"
| "after_select pc = False"

text \<open>A fetcher that has returned through line 128 or 133, which it can do only after
  the handler has taken its error.\<close>

fun failed_end :: "fstate \<Rightarrow> bool" where
  "failed_end (F_Defer x) = (x = RetErr)"
| "failed_end (F_Exit x) = (x = RetErr)"
| "failed_end pc = False"

definition inv_fail :: "req \<Rightarrow> bool" where
  "inv_fail s \<longleftrightarrow>
     (hpc s = H_Select \<longrightarrow> wpc s = W_Wait \<or> wpc s = W_Send) \<and>
     (\<forall>pc \<in> set (fpc s). failed_end pc \<longrightarrow> after_select (hpc s))"

definition inv :: "req \<Rightarrow> bool" where
  "inv s \<longleftrightarrow> inv_shape s \<and> inv_sem s \<and> inv_wg s \<and> inv_resp s \<and> inv_fail s"

text \<open>The requests that hold a slot of \<^verbatim>\<open>reqSemaphore\<close>: admitted and not yet
  through the deferred receive.\<close>

definition running :: "sys \<Rightarrow> nat" where
  "running S = length (filter (\<lambda>q. admitted (hpc q)) (reqs S))"

definition sys_inv :: "sys \<Rightarrow> bool" where
  "sys_inv S \<longleftrightarrow> reqSemaphore S = running S \<and> reqSemaphore S \<le> MaxSimultaneousRequests"

text \<open>
  A count of the steps a request has taken: every goroutine's program counter only
  moves forward.
\<close>

fun hrank :: "hstate \<Rightarrow> nat" where
  "hrank H_Acquire = 0"
| "hrank H_ReadAll = 1"
| "hrank H_CloseBody = 2"
| "hrank H_Unmarshal = 3"
| "hrank H_Loop = 4"
| "hrank H_Select = 5"
| "hrank (H_ErrBranch x) = 6"
| "hrank H_FinBranch = 6"
| "hrank (H_SetClientError x) = 7"
| "hrank (H_Defer p) = 8"
| "hrank H_Exit = 9"

fun frank :: "fstate \<Rightarrow> nat" where
  "frank F_Acquire = 0"
| "frank F_NewRequest = 1"
| "frank F_Do = 2"
| "frank (F_SendErr x) = 3"
| "frank (F_SetStatus c) = 3"
| "frank F_WgDone = 4"
| "frank (F_Defer x) = 5"
| "frank (F_Exit x) = 6"

fun wrank :: "wstate \<Rightarrow> nat" where
  "wrank W_None = 0"
| "wrank W_Wait = 0"
| "wrank W_Send = 1"
| "wrank W_Exit = 2"

definition steps_done :: "req \<Rightarrow> nat" where
  "steps_done s =
     hrank (hpc s) + length (jobs s) + sum_list (map frank (fpc s)) + wrank (wpc s)
     + (if cancelled s then 1 else 0)"

text \<open>What a schedule tells about the state it leads to.\<close>

fun wrote :: "fstate \<Rightarrow> bool" where
  "wrote F_WgDone = True"
| "wrote (F_Defer x) = (x \<noteq> RetErr)"
| "wrote (F_Exit x) = (x \<noteq> RetErr)"
| "wrote pc = False"

fun fetch_error :: "event \<Rightarrow> err option" where
  "fetch_error (NewRequest i (Some x)) = Some x"
| "fetch_error (Do i (Inl x)) = Some x"
| "fetch_error e = None"

fun reject_error :: "event \<Rightarrow> err option" where
  "reject_error (Unmarshal r) = (case validate r of Inl x \<Rightarrow> Some x | Inr us \<Rightarrow> None)"
| "reject_error e = None"

definition abort_cause :: "event list \<Rightarrow> err \<Rightarrow> bool" where
  "abort_cause es x \<longleftrightarrow> Some x \<in> set (map fetch_error es) \<or> Some x \<in> set (map reject_error es)"

definition inv_tr :: "event list \<Rightarrow> req \<Rightarrow> bool" where
  "inv_tr es s \<longleftrightarrow>
     (\<forall>i<length (fpc s). \<forall>c. fpc s ! i = F_SetStatus c \<longrightarrow> Do i (Inr c) \<in> set es) \<and>
     (\<forall>i<length (fpc s). wrote (fpc s ! i) \<longrightarrow> Do i (Inr (Status (jobs s ! i))) \<in> set es) \<and>
     (\<forall>i<length (fpc s). \<forall>x. fpc s ! i = F_SendErr x \<longrightarrow> Some x \<in> set (map fetch_error es)) \<and>
     (\<forall>x. hpc s = H_ErrBranch x \<longrightarrow> Some x \<in> set (map fetch_error es)) \<and>
     (\<forall>x. hpc s = H_SetClientError x \<longrightarrow> abort_cause es x) \<and>
     (\<forall>x. wbody s = Text x \<longrightarrow> abort_cause es x) \<and>
     (hpc s = H_Loop \<or> wpc s \<noteq> W_None \<longrightarrow> Unmarshal (Inr (urls s)) \<in> set es)"

text \<open>A write to the client failed (and \<^verbatim>\<open>checkError\<close> panicked).\<close>

fun write_failed :: "event \<Rightarrow> bool" where
  "write_failed (WriteError (Some y)) = True"
| "write_failed (Encode (Some y)) = True"
| "write_failed e = False"

fun fetcher_of :: "event \<Rightarrow> nat option" where
  "fetcher_of (Acquire i) = Some i"
| "fetcher_of (NewRequest i r) = Some i"
| "fetcher_of (Do i r) = Some i"
| "fetcher_of (SetStatus i) = Some i"
| "fetcher_of (WgDone i) = Some i"
| "fetcher_of (Release i) = Some i"
| "fetcher_of (RecvErr i) = Some i"
| "fetcher_of e = None"

definition rejected :: "req \<Rightarrow> err \<Rightarrow> bool" where
  "rejected s x \<longleftrightarrow>
     (hpc s = H_SetClientError x \<and> wbody s = Nothing) \<or>
     (returned (hpc s) \<and> wcode s = Some 404 \<and>
      (wbody s = Text x \<or> wbody s = Nothing))"

definition inv_un :: "event list \<Rightarrow> req \<Rightarrow> bool" where
  "inv_un es s \<longleftrightarrow>
     (\<forall>e \<in> set es. \<forall>i. fetcher_of e = Some i \<longrightarrow> i < length (fpc s)) \<and>
     (\<forall>r. Unmarshal r \<in> set es \<longrightarrow> \<not> pre_loop (hpc s)) \<and>
     (\<forall>r us. Unmarshal r \<in> set es \<longrightarrow> validate r = Inr us \<longrightarrow> urls s = us) \<and>
     (\<forall>r us. Unmarshal r \<in> set es \<longrightarrow> validate r = Inr us \<longrightarrow>
        hpc s = H_Loop \<or> wpc s \<noteq> W_None) \<and>
     (\<forall>r x. Unmarshal r \<in> set es \<longrightarrow> validate r = Inl x \<longrightarrow>
        fpc s = [] \<and> wpc s = W_None \<and> rejected s x) \<and>
     (returned (hpc s) \<longrightarrow>
        wbody s \<noteq> Nothing \<or> (\<forall>r. Unmarshal r \<notin> set es) \<or>
        (\<exists>e \<in> set es. write_failed e))"

subsection \<open>Schedules used as concrete examples\<close>

text \<open>
  Request bodies for the examples: the compact JSON text of a list of strings none of
  which needs an escape. The model never looks into a body; what the decoder makes of
  it is given by the \<open>Unmarshal\<close> event.
\<close>

definition quoted :: "string \<Rightarrow> string" where
  "quoted u = CHR 0x22 # u @ [CHR 0x22]"

definition json_urls :: "URL list \<Rightarrow> string" where
  "json_urls us = ''['' @ commas (map quoted us) @ '']''"









text \<open>Five URLs; fetchers 0, 4, 2 and 1 take the four slots, fetcher 3 waits.\<close>

definition b5 :: string where
  "b5 = json_urls [''u0'', ''u1'', ''u2'', ''u3'', ''u4'']"

definition c6_trace :: "event list" where
  "c6_trace =
     [Admit, ReadAll b5 None, CloseBody None,
      Unmarshal (Inr [''u0'', ''u1'', ''u2'', ''u3'', ''u4'']),
      Spawn, Spawn, Acquire 0, Spawn, Spawn, Spawn, GoWaiter,
      Acquire 4, Acquire 2, Acquire 1]"

definition c6_state :: req where
  "c6_state =
     \<lparr>hpc = H_Select, body = b5, urls = [''u0'', ''u1'', ''u2'', ''u3'', ''u4''],
      jobs = [\<lparr>URL = ''u0'', Status = 0\<rparr>, \<lparr>URL = ''u1'', Status = 0\<rparr>,
              \<lparr>URL = ''u2'', Status = 0\<rparr>, \<lparr>URL = ''u3'', Status = 0\<rparr>,
              \<lparr>URL = ''u4'', Status = 0\<rparr>],
      fpc = [F_NewRequest, F_NewRequest, F_NewRequest, F_Acquire, F_NewRequest],
      urlSemaphore = 4, wg = 5, wpc = W_Wait, cancelled = False,
      wcode = None, wbody = Nothing\<rparr>"

text \<open>Two URLs, both fetched; fetcher 1 finishes before fetcher 0.\<close>

definition ab_urls :: "URL list" where
  "ab_urls = [''https://a.example/ok'', ''https://b.example/ok'']"

definition ok_trace :: "event list" where
  "ok_trace =
     [Admit, ReadAll (json_urls ab_urls) None, CloseBody None, Unmarshal (Inr ab_urls),
      Spawn, Spawn, GoWaiter, Acquire 1, Acquire 0, NewRequest 1 None, NewRequest 0 None,
      Do 1 (Inr 404), SetStatus 1, WgDone 1, Release 1,
      Do 0 (Inr 200), SetStatus 0, WgDone 0, WaitReturns, RecvFin, Release 0,
      Encode None, ReleaseReq]"

definition ok_state :: req where
  "ok_state =
     \<lparr>hpc = H_Exit, body = json_urls ab_urls, urls = ab_urls,
      jobs = [\<lparr>URL = ''https://a.example/ok'', Status = 200\<rparr>,
              \<lparr>URL = ''https://b.example/ok'', Status = 404\<rparr>],
      fpc = [F_Exit RetOk, F_Exit RetOk],
      urlSemaphore = 0, wg = 0, wpc = W_Exit, cancelled = False,
      wcode = Some 200,
      wbody = JSON [\<lparr>URL = ''https://a.example/ok'', Status = 200\<rparr>,
                    \<lparr>URL = ''https://b.example/ok'', Status = 404\<rparr>]\<rparr>"

text \<open>
  Two URLs; the first is fetched, the second runs into the client's timeout. The
  handler answers with the error. \<open>slow_mid\<close> is the state in which the second
  fetcher is blocked in its send to \<^verbatim>\<open>errChan\<close>.
\<close>

definition slow_urls :: "URL list" where
  "slow_urls = [''https://a.example/ok'', ''https://b.example/slow'']"

definition timeout :: err where
  "timeout = ''context deadline exceeded (Client.Timeout exceeded while awaiting headers)''"

definition slow_prefix :: "event list" where
  "slow_prefix =
     [Admit, ReadAll (json_urls slow_urls) None, CloseBody None, Unmarshal (Inr slow_urls),
      Spawn, Spawn, GoWaiter, Acquire 0, Acquire 1, NewRequest 0 None, NewRequest 1 None,
      Do 0 (Inr 200), SetStatus 0, WgDone 0, Release 0, Do 1 (Inl timeout)]"

definition slow_mid :: req where
  "slow_mid =
     \<lparr>hpc = H_Select, body = json_urls slow_urls, urls = slow_urls,
      jobs = [\<lparr>URL = ''https://a.example/ok'', Status = 200\<rparr>,
              \<lparr>URL = ''https://b.example/slow'', Status = 0\<rparr>],
      fpc = [F_Exit RetOk, F_SendErr timeout],
      urlSemaphore = 1, wg = 1, wpc = W_Wait, cancelled = False,
      wcode = None, wbody = Nothing\<rparr>"

definition slow_trace :: "event list" where
  "slow_trace = slow_prefix @ [RecvErr 1, CtxDone, WriteError None, Release 1, ReleaseReq]"

definition slow_state :: req where
  "slow_state =
     \<lparr>hpc = H_Exit, body = json_urls slow_urls, urls = slow_urls,
      jobs = [\<lparr>URL = ''https://a.example/ok'', Status = 200\<rparr>,
              \<lparr>URL = ''https://b.example/slow'', Status = 0\<rparr>],
      fpc = [F_Exit RetOk, F_Exit RetErr],
      urlSemaphore = 0, wg = 1, wpc = W_Wait, cancelled = False,
      wcode = Some 404, wbody = Text timeout\<rparr>"

text \<open>Twenty-one URLs: the handler answers 404 and creates no Job.\<close>

definition urls21 :: "URL list" where
  "urls21 = [''u01'', ''u02'', ''u03'', ''u04'', ''u05'', ''u06'', ''u07'', ''u08'', ''u09'', ''u10'', ''u11'', ''u12'', ''u13'', ''u14'', ''u15'', ''u16'', ''u17'', ''u18'', ''u19'', ''u20'', ''u21'']"

definition c5_trace :: "event list" where
  "c5_trace =
     [Admit, ReadAll (json_urls urls21) None, CloseBody None, Unmarshal (Inr urls21),
      WriteError None, ReleaseReq]"

definition c5_state :: req where
  "c5_state =
     \<lparr>hpc = H_Exit, body = json_urls urls21, urls = [], jobs = [], fpc = [],
      urlSemaphore = 0, wg = 0, wpc = W_None, cancelled = False,
      wcode = Some 404, wbody = Text too_many\<rparr>"

text \<open>The empty list.\<close>

definition empty_trace :: "event list" where
  "empty_trace =
     [Admit, ReadAll ''[]'' None, CloseBody None, Unmarshal (Inr []),
      GoWaiter, WaitReturns, RecvFin, Encode None, ReleaseReq]"

definition empty_state :: req where
  "empty_state =
     \<lparr>hpc = H_Exit, body = ''[]'', urls = [], jobs = [], fpc = [],
      urlSemaphore = 0, wg = 0, wpc = W_Exit, cancelled = False,
      wcode = Some 200, wbody = JSON []\<rparr>"




text \<open>
  A state in which both cases of the select are ready: fetcher 0 is blocked in its send
  on \<^verbatim>\<open>errChan\<close> and the waiter in its send on \<^verbatim>\<open>finChan\<close>. No schedule leads
  to it.
\<close>

definition tie_state :: req where
  "tie_state =
     \<lparr>hpc = H_Select, body = ''[]'', urls = [''http://a.invalid/''],
      jobs = [\<lparr>URL = ''http://a.invalid/'', Status = 0\<rparr>],
      fpc = [F_SendErr ''dial tcp: lookup: no such host''],
      urlSemaphore = 1, wg = 0, wpc = W_Send, cancelled = False,
      wcode = None, wbody = Nothing\<rparr>"

text \<open>
  Two URLs whose fetches both fail. The handler receives the first error, answers and
  returns; the second fetcher stays blocked in its send.
\<close>

definition bad_urls :: "URL list" where
  "bad_urls = [''http://a.invalid/'', ''http://b.invalid/'']"

definition no_host :: err where
  "no_host = ''dial tcp: lookup: no such host''"

definition leak_trace :: "event list" where
  "leak_trace =
     [Admit, ReadAll (json_urls bad_urls) None, CloseBody None, Unmarshal (Inr bad_urls),
      Spawn, Spawn, GoWaiter, Acquire 0, Acquire 1, NewRequest 0 None, NewRequest 1 None,
      Do 0 (Inl no_host), Do 1 (Inl no_host),
      RecvErr 0, CtxDone, WriteError None, Release 0, ReleaseReq]"

definition leak_state :: req where
  "leak_state =
     \<lparr>hpc = H_Exit, body = json_urls bad_urls, urls = bad_urls,
      jobs = [\<lparr>URL = ''http://a.invalid/'', Status = 0\<rparr>,
              \<lparr>URL = ''http://b.invalid/'', Status = 0\<rparr>],
      fpc = [F_Exit RetErr, F_SendErr no_host],
      urlSemaphore = 1, wg = 2, wpc = W_Wait, cancelled = False,
      wcode = Some 404, wbody = Text no_host\<rparr>"

text \<open>
  Two URLs; the first fetch fails and the handler takes the error branch of its
  select. After line 86 the second fetch, still in flight, comes back with 200 and
  its fetcher runs to its end; then the handler answers and returns.
\<close>

definition mixed_urls :: "URL list" where
  "mixed_urls = [''http://a.invalid/'', ''https://b.example/ok'']"

definition c4_trace :: "event list" where
  "c4_trace =
     [Admit, ReadAll (json_urls mixed_urls) None, CloseBody None, Unmarshal (Inr mixed_urls),
      Spawn, Spawn, GoWaiter, Acquire 0, Acquire 1, NewRequest 0 None, NewRequest 1 None,
      Do 0 (Inl no_host), RecvErr 0, CtxDone,
      Do 1 (Inr 200), SetStatus 1, WgDone 1, Release 1,
      WriteError None, Release 0, ReleaseReq]"

definition c4_state :: req where
  "c4_state =
     \<lparr>hpc = H_Exit, body = json_urls mixed_urls, urls = mixed_urls,
      jobs = [\<lparr>URL = ''http://a.invalid/'', Status = 0\<rparr>,
              \<lparr>URL = ''https://b.example/ok'', Status = 200\<rparr>],
      fpc = [F_Exit RetErr, F_Exit RetOk],
      urlSemaphore = 0, wg = 1, wpc = W_Wait, cancelled = False,
      wcode = Some 404, wbody = Text no_host\<rparr>"

text \<open>
  A hundred and one requests. The first hundred are admitted; then the last one is
  blocked, until request 0 (whose body cannot be read) has returned.
\<close>

definition admit_first :: "nat \<Rightarrow> (nat \<times> event) list" where
  "admit_first k = map (\<lambda>r. (r, Admit)) [0..<k]"

definition full :: sys where
  "full = \<lparr>reqSemaphore = 100,
           reqs = replicate 100 (req_init\<lparr>hpc := H_ReadAll\<rparr>) @ [req_init]\<rparr>"

definition refilled :: sys where
  "refilled = \<lparr>reqSemaphore = 100,
     reqs = (replicate 100 (req_init\<lparr>hpc := H_ReadAll\<rparr>))
              [0 := req_init\<lparr>hpc := H_Exit, wcode := Some 400\<rparr>]
            @ [req_init\<lparr>hpc := H_ReadAll\<rparr>]\<rparr>"

section \<open>Basic facts\<close>

lemma run_append:
  "run s (es @ es') = (case run s es of None \<Rightarrow> None | Some s' \<Rightarrow> run s' es')"
  by (induction es arbitrary: s) (auto split: option.splits)

lemma length_filter_update:
  "i < length xs \<Longrightarrow>
   length (filter P (xs[i := y])) + (if P (xs ! i) then 1 else 0)
     = length (filter P xs) + (if P y then 1 else 0)"
proof (induction xs arbitrary: i)
  case Nil
  then show ?case by simp
next
  case (Cons x xs)
  then show ?case by (cases i) auto
qed

lemma filter_update_same:
  "i < length xs \<Longrightarrow> P (xs ! i) = P y \<Longrightarrow>
   length (filter P (xs[i := y])) = length (filter P xs)"
  using length_filter_update [of i xs P y] by (simp split: if_splits)

lemma filter_update_gain:
  "i < length xs \<Longrightarrow> \<not> P (xs ! i) \<Longrightarrow> P y \<Longrightarrow>
   length (filter P (xs[i := y])) = Suc (length (filter P xs))"
  using length_filter_update [of i xs P y] by simp

lemma filter_update_lose:
  "i < length xs \<Longrightarrow> P (xs ! i) \<Longrightarrow> \<not> P y \<Longrightarrow>
   Suc (length (filter P (xs[i := y]))) = length (filter P xs)"
  using length_filter_update [of i xs P y] by simp


lemma map_URL_set_Status:
  "map URL (js[i := (js ! i)\<lparr>Status := c\<rparr>]) = map URL js"
proof (cases "i < length js")
  case True
  then have "(map URL js)[i := URL (js ! i)] = map URL js"
    by (metis list_update_id nth_map)
  then show ?thesis by (simp add: map_update)
next
  case False
  then show ?thesis by (simp add: not_less list_update_beyond)
qed

lemma stepE [consumes 1, case_names Admit ReadAllErr ReadAllOk CloseOk ClosePanic
    Reject Accept Spawn GoWaiter RecvErr RecvFin CtxDone WriteErrorOk WriteErrorPanic
    EncodeOk EncodePanic ReleaseReq Acquire NewRequestOk NewRequestErr DoErr DoOk
    SetStatus WgDone Release WaitReturns Cancel]:
  assumes "step s e = Some s'"
  obtains
    "e = Admit" "hpc s = H_Acquire" "s' = s\<lparr>hpc := H_ReadAll\<rparr>"
  | b x y where "e = ReadAll b x" "hpc s = H_ReadAll" "read_all_limit b x = Inl y"
      "s' = s\<lparr>hpc := H_Defer None, wcode := Some 400\<rparr>"
  | b x bs where "e = ReadAll b x" "hpc s = H_ReadAll" "read_all_limit b x = Inr bs"
      "s' = s\<lparr>hpc := H_CloseBody, body := bs\<rparr>"
  | "e = CloseBody None" "hpc s = H_CloseBody" "s' = s\<lparr>hpc := H_Unmarshal\<rparr>"
  | x where "e = CloseBody (Some x)" "hpc s = H_CloseBody" "s' = s\<lparr>hpc := H_Defer (Some x)\<rparr>"
  | r x where "e = Unmarshal r" "hpc s = H_Unmarshal" "validate r = Inl x"
      "s' = s\<lparr>hpc := H_SetClientError x\<rparr>"
  | r us where "e = Unmarshal r" "hpc s = H_Unmarshal" "validate r = Inr us"
      "s' = s\<lparr>hpc := H_Loop, urls := us, urlSemaphore := 0, wg := int (length us), jobs := []\<rparr>"
  | "e = Spawn" "hpc s = H_Loop" "length (jobs s) < length (urls s)"
      "s' = s\<lparr>jobs := jobs s @ [\<lparr>URL = urls s ! length (jobs s), Status = 0\<rparr>],
               fpc := fpc s @ [F_Acquire]\<rparr>"
  | "e = GoWaiter" "hpc s = H_Loop" "\<not> length (jobs s) < length (urls s)"
      "s' = s\<lparr>hpc := H_Select, wpc := W_Wait\<rparr>"
  | i x where "e = RecvErr i" "hpc s = H_Select" "i < length (fpc s)" "fpc s ! i = F_SendErr x"
      "s' = s\<lparr>hpc := H_ErrBranch x, fpc := (fpc s)[i := F_Defer RetErr]\<rparr>"
  | "e = RecvFin" "hpc s = H_Select" "wpc s = W_Send" "s' = s\<lparr>hpc := H_FinBranch, wpc := W_Exit\<rparr>"
  | x where "e = CtxDone" "hpc s = H_ErrBranch x" "s' = s\<lparr>hpc := H_SetClientError x\<rparr>"
  | x where "e = WriteError None" "hpc s = H_SetClientError x"
      "s' = s\<lparr>hpc := H_Defer None, wcode := Some 404, wbody := Text x\<rparr>"
  | x y where "e = WriteError (Some y)" "hpc s = H_SetClientError x"
      "s' = s\<lparr>hpc := H_Defer (Some y), wcode := Some 404\<rparr>"
  | "e = Encode None" "hpc s = H_FinBranch"
      "s' = s\<lparr>hpc := H_Defer None, wcode := Some 200, wbody := JSON (jobs s)\<rparr>"
  | y where "e = Encode (Some y)" "hpc s = H_FinBranch"
      "s' = s\<lparr>hpc := H_Defer (Some y), wcode := Some 200\<rparr>"
  | p where "e = ReleaseReq" "hpc s = H_Defer p" "s' = s\<lparr>hpc := H_Exit\<rparr>"
  | i where "e = Acquire i" "i < length (fpc s)" "fpc s ! i = F_Acquire"
      "urlSemaphore s < MaxSimultaneousConnectionsPerRequest"
      "s' = s\<lparr>fpc := (fpc s)[i := F_NewRequest], urlSemaphore := urlSemaphore s + 1\<rparr>"
  | i where "e = NewRequest i None" "i < length (fpc s)" "fpc s ! i = F_NewRequest"
      "s' = s\<lparr>fpc := (fpc s)[i := F_Do]\<rparr>"
  | i x where "e = NewRequest i (Some x)" "i < length (fpc s)" "fpc s ! i = F_NewRequest"
      "s' = s\<lparr>fpc := (fpc s)[i := F_SendErr x]\<rparr>"
  | i x where "e = Do i (Inl x)" "i < length (fpc s)" "fpc s ! i = F_Do"
      "s' = s\<lparr>fpc := (fpc s)[i := F_SendErr x]\<rparr>"
  | i c where "e = Do i (Inr c)" "i < length (fpc s)" "fpc s ! i = F_Do"
      "s' = s\<lparr>fpc := (fpc s)[i := F_SetStatus c]\<rparr>"
  | i c where "e = SetStatus i" "i < length (fpc s)" "i < length (jobs s)"
      "fpc s ! i = F_SetStatus c"
      "s' = s\<lparr>jobs := (jobs s)[i := (jobs s ! i)\<lparr>Status := c\<rparr>], fpc := (fpc s)[i := F_WgDone]\<rparr>"
  | i where "e = WgDone i" "i < length (fpc s)" "fpc s ! i = F_WgDone"
      "s' = s\<lparr>wg := wg s - 1, fpc := (fpc s)[i := F_Defer (if wg s - 1 < 0 then Panic else RetOk)]\<rparr>"
  | i x where "e = Release i" "i < length (fpc s)" "0 < urlSemaphore s" "fpc s ! i = F_Defer x"
      "s' = s\<lparr>fpc := (fpc s)[i := F_Exit x], urlSemaphore := urlSemaphore s - 1\<rparr>"
  | "e = WaitReturns" "wpc s = W_Wait" "wg s = 0" "s' = s\<lparr>wpc := W_Send\<rparr>"
  | "e = Cancel" "\<not> cancelled s" "s' = s\<lparr>cancelled := True\<rparr>"
proof (cases e)
  case Admit with assms that(1) show ?thesis by (auto split: if_splits)
next
  case (ReadAll b x) with assms that(2,3) show ?thesis by (auto split: if_splits sum.splits)
next
  case (CloseBody r) with assms that(4,5) show ?thesis by (auto split: if_splits option.splits)
next
  case (Unmarshal r) with assms that(6,7) show ?thesis by (auto split: if_splits sum.splits)
next
  case Spawn with assms that(8) show ?thesis by (auto split: if_splits)
next
  case GoWaiter with assms that(9) show ?thesis by (auto split: if_splits)
next
  case (RecvErr i) with assms that(10) show ?thesis by (auto split: if_splits fstate.splits)
next
  case RecvFin with assms that(11) show ?thesis by (auto split: if_splits)
next
  case CtxDone with assms that(12) show ?thesis by (auto split: hstate.splits)
next
  case (WriteError r) with assms that(13,14) show ?thesis by (auto split: hstate.splits option.splits)
next
  case (Encode r) with assms that(15,16) show ?thesis by (auto split: if_splits option.splits)
next
  case ReleaseReq with assms that(17) show ?thesis by (auto split: hstate.splits)
next
  case (Acquire i) with assms that(18) show ?thesis by (auto split: if_splits)
next
  case (NewRequest i r) with assms that(19,20) show ?thesis by (auto split: if_splits option.splits)
next
  case (Do i r) with assms that(21,22) show ?thesis by (auto split: if_splits sum.splits)
next
  case (SetStatus i) with assms that(23) show ?thesis by (auto split: if_splits fstate.splits)
next
  case (WgDone i) with assms that(24) show ?thesis by (auto split: if_splits)
next
  case (Release i) with assms that(25) show ?thesis by (auto split: if_splits fstate.splits)
next
  case WaitReturns with assms that(26) show ?thesis by (auto split: if_splits)
next
  case Cancel with assms that(27) show ?thesis by (auto split: if_splits)
qed

section \<open>The invariants hold in every reachable state\<close>

lemma validate_Inr: "validate r = Inr us \<Longrightarrow> r = Inr us \<and> length us \<le> MaxURLs"
  by (auto simp: validate_def split: sum.splits if_splits)

lemma read_all_limit_le: "read_all_limit b x = Inr bs \<Longrightarrow> length bs \<le> MaxBodySize"
  by (auto simp: read_all_limit_def split: if_splits option.splits)

lemma step_inv_shape:
  assumes "inv_shape s" and "step s e = Some s'"
  shows "inv_shape s'"
  using assms(2,1)
  by (cases rule: stepE)
     (auto simp: inv_shape_def take_Suc_conv_app_nth map_URL_set_Status
           dest: read_all_limit_le validate_Inr)


lemma step_inv_sem:
  assumes "inv_sem s" and "inv_shape s" and "step s e = Some s'"
  shows "inv_sem s'"
  using assms(3,1,2)
proof (cases rule: stepE)
  case (Release i x)
  then show ?thesis
    using assms(1) filter_update_lose [of i "fpc s" holds "F_Exit x"]
    by (auto simp: inv_sem_def)
qed (auto simp: inv_sem_def inv_shape_def filter_update_same filter_update_gain)

lemma not_done_less:
  "i < length xs \<Longrightarrow> \<not> P (xs ! i) \<Longrightarrow> length (filter P xs) < length xs"
  by (metis length_filter_less nth_mem)

lemma all_done:
  "length (filter P xs) = length xs \<Longrightarrow> i < length xs \<Longrightarrow> P (xs ! i)"
  using not_done_less [of i xs P] by auto

lemma set_update_no:
  "\<forall>x \<in> set xs. \<not> Q x \<Longrightarrow> \<not> Q y \<Longrightarrow> \<forall>x \<in> set (xs[i := y]). \<not> Q x"
  using set_update_subset_insert [of xs i y] by auto

lemma wg_frame:
  assumes "inv_wg s" and "wg s' = wg s" and "urls s' = urls s" and "wpc s' = wpc s"
    and "fpc s' = (fpc s)[i := y]" and "i < length (fpc s)"
    and "done_ok y = done_ok (fpc s ! i)" and "\<not> panicked y"
  shows "inv_wg s'"
proof -
  have "length (filter done_ok (fpc s')) = length (filter done_ok (fpc s))"
    using assms(5-7) by (simp add: filter_update_same)
  moreover have "\<forall>pc \<in> set (fpc s'). \<not> panicked pc"
    unfolding assms(5) using assms(1,8) by (intro set_update_no) (auto simp: inv_wg_def)
  ultimately show ?thesis using assms(1-4) by (simp add: inv_wg_def)
qed

lemma step_inv_wg:
  assumes "inv_wg s" and "inv_shape s" and "step s e = Some s'"
  shows "inv_wg s'"
  using assms(3)
proof (cases rule: stepE)
  case (WgDone i)
  from WgDone have nd: "length (filter done_ok (fpc s)) < length (fpc s)"
    using not_done_less [of i "fpc s" done_ok] by simp
  with assms have pos: "0 < wg s"
    by (simp add: inv_wg_def inv_shape_def)
  with assms have nw: "wpc s \<noteq> W_Send \<and> wpc s \<noteq> W_Exit"
    by (auto simp: inv_wg_def)
  from WgDone pos have fp: "fpc s' = (fpc s)[i := F_Defer RetOk]" by simp
  have "length (filter done_ok (fpc s')) = Suc (length (filter done_ok (fpc s)))"
    unfolding fp using WgDone by (simp add: filter_update_gain)
  moreover have "\<forall>pc \<in> set (fpc s'). \<not> panicked pc"
    unfolding fp using assms(1) by (intro set_update_no) (auto simp: inv_wg_def)
  ultimately show ?thesis
    using assms(1) WgDone nw by (simp add: inv_wg_def)
next
  case (Accept r us)
  with assms show ?thesis by (simp add: inv_wg_def inv_shape_def)
next
  case Spawn
  with assms show ?thesis by (simp add: inv_wg_def inv_shape_def)
next
  case GoWaiter
  with assms show ?thesis by (simp add: inv_wg_def inv_shape_def)
next
  case RecvFin
  with assms show ?thesis by (simp add: inv_wg_def)
next
  case WaitReturns
  with assms show ?thesis by (simp add: inv_wg_def)
next
  case (RecvErr i x)
  with assms(1) show ?thesis by (intro wg_frame [of s s' i "F_Defer RetErr"]) simp_all
next
  case (Acquire i)
  with assms(1) show ?thesis by (intro wg_frame [of s s' i "F_NewRequest"]) simp_all
next
  case (NewRequestOk i)
  with assms(1) show ?thesis by (intro wg_frame [of s s' i "F_Do"]) simp_all
next
  case (NewRequestErr i x)
  with assms(1) show ?thesis by (intro wg_frame [of s s' i "F_SendErr x"]) simp_all
next
  case (DoErr i x)
  with assms(1) show ?thesis by (intro wg_frame [of s s' i "F_SendErr x"]) simp_all
next
  case (DoOk i c)
  with assms(1) show ?thesis by (intro wg_frame [of s s' i "F_SetStatus c"]) simp_all
next
  case (SetStatus i c)
  with assms(1) show ?thesis by (intro wg_frame [of s s' i "F_WgDone"]) simp_all
next
  case (Release i x)
  with assms(1) have "\<not> panicked (F_Defer x)"
    by (metis nth_mem inv_wg_def)
  then have "\<not> panicked (F_Exit x)" by (cases x) simp_all
  with Release assms(1) show ?thesis
    by (intro wg_frame [of s s' i "F_Exit x"]) simp_all
qed (use assms(1) in \<open>simp_all add: inv_wg_def\<close>)

lemma fin_all_done:
  assumes "inv_shape s" and "inv_wg s" and "wpc s = W_Send \<or> wpc s = W_Exit"
    and "i < length (fpc s)"
  shows "done_ok (fpc s ! i)"
proof -
  from assms(2,3) have "wg s = 0" by (auto simp: inv_wg_def)
  with assms(2) have "length (filter done_ok (fpc s)) = length (urls s)"
    by (simp add: inv_wg_def)
  moreover from assms(1,3) have "length (fpc s) = length (urls s)"
    by (auto simp: inv_shape_def)
  ultimately show ?thesis using assms(4) all_done [of done_ok "fpc s" i] by simp
qed

lemma step_inv_resp:
  assumes "inv_resp s" and "inv_shape s" and "inv_wg s" and "step s e = Some s'"
  shows "inv_resp s'"
  using assms(4)
proof (cases rule: stepE)
  case (SetStatus i c)
  have "wpc s \<noteq> W_Exit"
    using fin_all_done [OF assms(2,3), of i] SetStatus by auto
  with SetStatus assms(1) show ?thesis by (auto simp: inv_resp_def)
next
  case GoWaiter
  with assms(1,2) show ?thesis by (auto simp: inv_resp_def inv_shape_def)
qed (use assms(1) in \<open>auto simp: inv_resp_def\<close>)

lemma set_update_all:
  "\<forall>x \<in> set xs. P x \<Longrightarrow> P y \<Longrightarrow> \<forall>x \<in> set (xs[i := y]). P x"
  using set_update_subset_insert [of xs i y] by auto

lemma fail_frame:
  assumes "inv_fail s" and "hpc s' = hpc s" and "wpc s' = wpc s"
    and "fpc s' = (fpc s)[i := y]" and "i < length (fpc s)"
    and "failed_end y \<longrightarrow> failed_end (fpc s ! i)"
  shows "inv_fail s'"
proof -
  from assms(1,5,6) have "failed_end y \<longrightarrow> after_select (hpc s)"
    by (auto simp: inv_fail_def)
  with assms(1) have "\<forall>pc \<in> set ((fpc s)[i := y]). failed_end pc \<longrightarrow> after_select (hpc s)"
    by (intro set_update_all) (auto simp: inv_fail_def)
  with assms(1-4) show ?thesis by (simp add: inv_fail_def)
qed

lemma step_inv_fail:
  assumes "inv_fail s" and "inv_shape s" and "step s e = Some s'"
  shows "inv_fail s'"
  using assms(3)
proof (cases rule: stepE)
  case (RecvErr i x)
  with assms(1) show ?thesis
    by (simp add: inv_fail_def)
next
  case (Acquire i)
  with assms(1) show ?thesis by (intro fail_frame [of s s' i F_NewRequest]) simp_all
next
  case (NewRequestOk i)
  with assms(1) show ?thesis by (intro fail_frame [of s s' i F_Do]) simp_all
next
  case (NewRequestErr i x)
  with assms(1) show ?thesis by (intro fail_frame [of s s' i "F_SendErr x"]) simp_all
next
  case (DoErr i x)
  with assms(1) show ?thesis by (intro fail_frame [of s s' i "F_SendErr x"]) simp_all
next
  case (DoOk i c)
  with assms(1) show ?thesis by (intro fail_frame [of s s' i "F_SetStatus c"]) simp_all
next
  case (SetStatus i c)
  with assms(1) show ?thesis by (intro fail_frame [of s s' i F_WgDone]) simp_all
next
  case (WgDone i)
  with assms(1) show ?thesis
    by (intro fail_frame [of s s' i "F_Defer (if wg s - 1 < 0 then Panic else RetOk)"]) simp_all
next
  case (Release i x)
  with assms(1) show ?thesis by (intro fail_frame [of s s' i "F_Exit x"]) simp_all
qed (use assms(1,2) in \<open>auto simp: inv_fail_def inv_shape_def\<close>)

lemma step_inv: "inv s \<Longrightarrow> step s e = Some s' \<Longrightarrow> inv s'"
  unfolding inv_def
  by (blast intro: step_inv_shape step_inv_sem step_inv_wg step_inv_resp step_inv_fail)

lemma inv_init: "inv req_init"
  by (simp add: inv_def inv_shape_def inv_sem_def inv_wg_def inv_resp_def inv_fail_def
      req_init_def)

lemma run_inv: "inv s \<Longrightarrow> run s es = Some s' \<Longrightarrow> inv s'"
  by (induction es arbitrary: s) (auto split: option.splits dest: step_inv)

lemma reach_inv: "run req_init es = Some s \<Longrightarrow> inv s"
  using run_inv [OF inv_init] .

lemma step_inv_tr:
  assumes "inv_tr es s" and "inv_shape s" and "step s e = Some s'"
  shows "inv_tr (es @ [e]) s'"
  using assms(3)
proof (cases rule: stepE)
  case (Accept r us)
  with assms(1,2) validate_Inr [of r us] show ?thesis
    by (auto simp: inv_tr_def inv_shape_def abort_cause_def)
next
  case (Reject r x)
  with assms(1,2) show ?thesis
    by (auto simp: inv_tr_def inv_shape_def abort_cause_def image_iff)
next
  case Spawn
  with assms(1,2) show ?thesis
    by (auto simp: inv_tr_def inv_shape_def abort_cause_def nth_append)
next
  case (SetStatus i c)
  with assms(1,2) show ?thesis
    by (auto simp: inv_tr_def inv_shape_def abort_cause_def nth_list_update)
qed (use assms(1,2) in \<open>auto simp: inv_tr_def inv_shape_def abort_cause_def nth_list_update\<close>)

lemma step_inv_un:
  assumes "inv_un es s" and "inv_shape s" and "inv_resp s" and "step s e = Some s'"
  shows "inv_un (es @ [e]) s'"
  using assms(4)
proof (cases rule: stepE)
  case (Accept r us)
  with assms(1,2) show ?thesis
    by (auto simp: inv_un_def inv_shape_def)
next
  case (Reject r x)
  with assms(1,2,3) show ?thesis
    by (auto simp: inv_un_def inv_shape_def inv_resp_def rejected_def)
next
  case Spawn
  with assms(1,2) show ?thesis
    by (fastforce simp: inv_un_def inv_shape_def rejected_def)
qed (use assms(1,2) in \<open>auto simp: inv_un_def inv_shape_def rejected_def\<close>)

lemma run_inv_tr:
  "run s es = Some s' \<Longrightarrow> inv s \<Longrightarrow> inv_tr es0 s \<Longrightarrow> inv_un es0 s \<Longrightarrow>
   inv_tr (es0 @ es) s' \<and> inv_un (es0 @ es) s'"
proof (induction es arbitrary: s es0)
  case Nil
  then show ?case by simp
next
  case (Cons e es)
  from Cons.prems(1) obtain t where st: "step s e = Some t" and rn: "run t es = Some s'"
    by (auto split: option.splits)
  from Cons.prems(2) st have "inv t" by (rule step_inv)
  moreover from Cons.prems st have "inv_tr (es0 @ [e]) t"
    by (auto simp: inv_def intro: step_inv_tr)
  moreover from Cons.prems st have "inv_un (es0 @ [e]) t"
    by (auto simp: inv_def intro: step_inv_un)
  ultimately show ?case
    using Cons.IH [OF rn, of "es0 @ [e]"] by simp
qed

lemma reach_inv_tr:
  assumes "run req_init es = Some s"
  shows "inv_tr es s" and "inv_un es s"
proof -
  have "inv_tr [] req_init" by (simp add: inv_tr_def req_init_def)
  moreover have "inv_un [] req_init" by (simp add: inv_un_def req_init_def)
  ultimately show "inv_tr es s" and "inv_un es s"
    using run_inv_tr [OF assms inv_init, of "[]"] by simp_all
qed

section \<open>The per-request limit of four outgoing fetches\<close>

lemma read_small: "length b < MaxBodySize \<Longrightarrow> read_all_limit b None = Inr b"
  by (simp add: read_all_limit_def)

lemma b5_small: "length b5 < MaxBodySize"
  by (simp add: b5_def json_urls_def quoted_def MaxBodySize_def MaxURLs_def)

lemma c6_run: "run req_init c6_trace = Some c6_state"
  by (simp add: c6_trace_def c6_state_def read_small [OF b5_small] req_init_def validate_def
      MaxURLs_def MaxSimultaneousConnectionsPerRequest_def)

text \<open>
  C6. In every state that any schedule of a request reaches, the fetchers that hold a
  slot of \<^verbatim>\<open>urlSemaphore\<close> (those between the send of line 120 and the deferred
  receive of line 121, which are the ones doing work) number at most 4, whatever the
  number of URLs.
\<close>

theorem C6_at_most_four_active:
  assumes "run req_init es = Some s"
  shows "length (filter holds (fpc s)) \<le> 4"
  using reach_inv [OF assms]
  by (simp add: inv_def inv_sem_def MaxSimultaneousConnectionsPerRequest_def)

theorem C6_witness:
  "run req_init c6_trace = Some c6_state \<and> length (filter holds (fpc c6_state)) \<le> 4
   \<and> step c6_state (Acquire 3) = None"
  using C6_at_most_four_active [OF c6_run] c6_run
  by (simp add: c6_state_def MaxSimultaneousConnectionsPerRequest_def)

section \<open>The result of a batch whose fetches all succeed\<close>

lemma ab_small: "length (json_urls ab_urls) < MaxBodySize"
  by (simp add: ab_urls_def json_urls_def quoted_def MaxBodySize_def MaxURLs_def)

lemmas run_defs =
  req_init_def validate_def MaxURLs_def MaxSimultaneousConnectionsPerRequest_def

lemma ok_run: "run req_init ok_trace = Some ok_state"
  by (simp add: ok_trace_def ok_state_def read_small [OF ab_small] run_defs)
     (simp add: ab_urls_def)

lemma done_ok_wrote: "done_ok pc \<Longrightarrow> wrote pc"
  by (cases pc) auto

lemma validate_cases:
  "validate (Inr us) = Inr us \<and> length us \<le> MaxURLs \<or>
   validate (Inr us) = Inl too_many \<and> MaxURLs < length us"
  by (simp add: validate_def)

lemma accepted_urls:
  assumes "inv_un es s" and "Unmarshal (Inr us) \<in> set es" and "wpc s \<noteq> W_None"
  shows "urls s = us"
proof -
  from validate_cases [of us] show ?thesis
  proof
    assume "validate (Inr us) = Inr us \<and> length us \<le> MaxURLs"
    with assms(1,2) show ?thesis unfolding inv_un_def by blast
  next
    assume "validate (Inr us) = Inl too_many \<and> MaxURLs < length us"
    with assms(1,2) have "wpc s = W_None" unfolding inv_un_def by blast
    with assms(3) show ?thesis by simp
  qed
qed

lemma no_abort_cause:
  assumes "inv_un es s" and "Unmarshal (Inr us) \<in> set es" and "length us \<le> MaxURLs"
    and "\<forall>e \<in> set es. fetch_error e = None"
    and "hpc s = H_Loop \<or> wpc s \<noteq> W_None \<or> hpc s = H_Exit"
  shows "\<not> abort_cause es x"
proof
  assume "abort_cause es x"
  then consider "Some x \<in> set (map fetch_error es)" | "Some x \<in> set (map reject_error es)"
    by (auto simp: abort_cause_def)
  then show False
  proof cases
    case 1
    with assms(4) show False by auto
  next
    case 2
    then obtain ev where "ev \<in> set es" and "reject_error ev = Some x" by auto
    then obtain r where r: "Unmarshal r \<in> set es" and v: "validate r = Inl x"
      by (cases ev rule: reject_error.cases) (auto split: sum.splits)
    from assms(3) have "validate (Inr us) = Inr us" by (simp add: validate_def)
    with assms(1,2) have a: "hpc s = H_Loop \<or> wpc s \<noteq> W_None" unfolding inv_un_def by blast
    from assms(1) r v have "wpc s = W_None" and "rejected s x" unfolding inv_un_def by blast+
    with a show False by (auto simp: rejected_def)
  qed
qed

text \<open>
  C2. Let the decoder have returned the list \<open>us\<close>. Whenever the handler has written
  a JSON result, the result has one Job per element of \<open>us\<close>, in the order of \<open>us\<close>,
  and the status of Job \<open>i\<close> is the status code that \<^verbatim>\<open>client.Do\<close> returned to
  fetcher \<open>i\<close>, in whatever order the fetchers ran and finished. And if \<open>us\<close> has at
  most 20 elements, no \<^verbatim>\<open>http.NewRequest\<close> and no \<^verbatim>\<open>client.Do\<close> returned
  an error, and no write to the client failed, then a handler that has returned has
  written that JSON result.
\<close>

theorem C2_order_and_status:
  assumes "run req_init es = Some s" and "Unmarshal (Inr us) \<in> set es"
  shows "(\<forall>js. wbody s = JSON js \<longrightarrow>
            length js = length us \<and> map URL js = us \<and>
            (\<forall>i<length js. Do i (Inr (Status (js ! i))) \<in> set es)) \<and>
         (length us \<le> 20 \<and> (\<forall>e \<in> set es. fetch_error e = None) \<and> hpc s = H_Exit \<and>
          (\<forall>e \<in> set es. \<not> write_failed e)
          \<longrightarrow> wbody s = JSON (jobs s))"
proof -
  from assms(1) have i: "inv s" and t: "inv_tr es s" and u: "inv_un es s"
    by (rule reach_inv, (rule reach_inv_tr)+)
  have a: "length js = length us \<and> map URL js = us \<and>
           (\<forall>i<length js. Do i (Inr (Status (js ! i))) \<in> set es)" if b: "wbody s = JSON js" for js
  proof -
    from i b have w: "wpc s = W_Exit" and j: "js = jobs s"
      by (auto simp: inv_def inv_resp_def)
    from w have e: "urls s = us" by (intro accepted_urls [OF u assms(2)]) simp
    from i w have l: "length (jobs s) = length (urls s)" "length (fpc s) = length (jobs s)"
      by (auto simp: inv_def inv_shape_def)
    from i l have m: "map URL (jobs s) = urls s"
      by (auto simp: inv_def inv_shape_def)
    have "Do k (Inr (Status (jobs s ! k))) \<in> set es" if "k < length (jobs s)" for k
    proof -
      from i w that l have "done_ok (fpc s ! k)"
        by (intro fin_all_done) (auto simp: inv_def)
      then have "wrote (fpc s ! k)" by (rule done_ok_wrote)
      with t that l show ?thesis by (auto simp: inv_tr_def)
    qed
    with j l m e show ?thesis by simp
  qed
  have c: "wbody s = JSON (jobs s)"
    if "length us \<le> 20" and "\<forall>e \<in> set es. fetch_error e = None" and "hpc s = H_Exit"
      and "\<forall>e \<in> set es. \<not> write_failed e"
  proof (cases "wbody s")
    case Nothing
    from that(3) have "returned (hpc s)" by simp
    with Nothing u that(4) assms(2) show ?thesis unfolding inv_un_def by blast
  next
    case (Text x)
    with t have "abort_cause es x" by (simp add: inv_tr_def)
    moreover have "\<not> abort_cause es x"
      using that by (intro no_abort_cause [OF u assms(2)]) (simp_all add: MaxURLs_def)
    ultimately show ?thesis by simp
  next
    case (JSON js)
    with i show ?thesis by (simp add: inv_def inv_resp_def)
  qed
  from a c show ?thesis by blast
qed

theorem C2_witness:
  "run req_init ok_trace = Some ok_state \<and> Unmarshal (Inr ab_urls) \<in> set ok_trace \<and>
   length ab_urls \<le> 20 \<and> hpc ok_state = H_Exit \<and>
   list_all (\<lambda>e. fetch_error e = None \<and> \<not> write_failed e) ok_trace \<and>
   wbody ok_state = JSON [\<lparr>URL = ''https://a.example/ok'', Status = 200\<rparr>,
                          \<lparr>URL = ''https://b.example/ok'', Status = 404\<rparr>] \<and>
   Do 0 (Inr 200) \<in> set ok_trace \<and> Do 1 (Inr 404) \<in> set ok_trace"
proof -
  have u: "Unmarshal (Inr ab_urls) \<in> set ok_trace" by (simp add: ok_trace_def)
  have w: "list_all (\<lambda>e. fetch_error e = None \<and> \<not> write_failed e) ok_trace"
    by (simp add: ok_trace_def)
  have d: "Do 0 (Inr 200) \<in> set ok_trace" "Do 1 (Inr 404) \<in> set ok_trace"
    by (simp_all add: ok_trace_def)
  have s: "hpc ok_state = H_Exit"
    "wbody ok_state = JSON [\<lparr>URL = ''https://a.example/ok'', Status = 200\<rparr>,
                            \<lparr>URL = ''https://b.example/ok'', Status = 404\<rparr>]"
    by (simp_all add: ok_state_def)
  have l: "length ab_urls \<le> 20" by (simp add: ab_urls_def)
  from C2_order_and_status [OF ok_run u] ok_run u w d s l show ?thesis by simp
qed

section \<open>All or nothing\<close>

lemma slow_small: "length (json_urls slow_urls) < MaxBodySize"
  by (simp add: slow_urls_def json_urls_def quoted_def MaxBodySize_def MaxURLs_def)

lemma slow_mid_run: "run req_init slow_prefix = Some slow_mid"
  by (simp add: slow_prefix_def slow_mid_def read_small [OF slow_small] run_defs)
     (simp add: slow_urls_def)

lemma slow_run: "run req_init slow_trace = Some slow_state"
  by (simp add: slow_trace_def run_append slow_mid_run)
     (simp add: slow_mid_def slow_state_def)

text \<open>
  C1. What the handler has written as the body of its response is, in every reachable
  state, one of: nothing yet; the text of one error, with status 404, that is the
  error of a fetch or of the validation; or the JSON encoding of the whole Job slice,
  with status 200, and then there is one Job per URL, in order, and every fetcher has
  executed the assignment of line 138. A result with a missing status is never sent.
  And a handler that got as far as decoding the body and has returned, no write to the
  client having failed, has written one of the two.
\<close>

theorem C1_all_or_nothing:
  assumes "run req_init es = Some s"
  shows "(wbody s = Nothing \<or>
          (\<exists>x. wbody s = Text x \<and> wcode s = Some 404 \<and> abort_cause es x) \<or>
          (wbody s = JSON (jobs s) \<and> wcode s = Some 200 \<and>
           map URL (jobs s) = urls s \<and> length (fpc s) = length (jobs s) \<and>
           (\<forall>i<length (jobs s). wrote (fpc s ! i)))) \<and>
         (hpc s = H_Exit \<and> (\<exists>r. Unmarshal r \<in> set es) \<and>
          (\<forall>e \<in> set es. \<not> write_failed e)
          \<longrightarrow> wbody s \<noteq> Nothing)"
proof -
  from assms have i: "inv s" and t: "inv_tr es s" and u: "inv_un es s"
    by (rule reach_inv, (rule reach_inv_tr)+)
  have a: "wbody s = Nothing \<or>
          (\<exists>x. wbody s = Text x \<and> wcode s = Some 404 \<and> abort_cause es x) \<or>
          (wbody s = JSON (jobs s) \<and> wcode s = Some 200 \<and>
           map URL (jobs s) = urls s \<and> length (fpc s) = length (jobs s) \<and>
           (\<forall>i<length (jobs s). wrote (fpc s ! i)))"
  proof (cases "wbody s")
    case Nothing
    then show ?thesis by simp
  next
    case (Text x)
    with i t show ?thesis by (auto simp: inv_def inv_resp_def inv_tr_def)
  next
    case (JSON js)
    from i JSON have w: "wpc s = W_Exit" and j: "js = jobs s" and c: "wcode s = Some 200"
      by (auto simp: inv_def inv_resp_def)
    from i w have l: "length (jobs s) = length (urls s)" "length (fpc s) = length (jobs s)"
      by (auto simp: inv_def inv_shape_def)
    from i l have m: "map URL (jobs s) = urls s"
      by (auto simp: inv_def inv_shape_def)
    have "wrote (fpc s ! k)" if "k < length (jobs s)" for k
    proof -
      from i w that l have "done_ok (fpc s ! k)"
        by (intro fin_all_done) (auto simp: inv_def)
      then show ?thesis by (rule done_ok_wrote)
    qed
    with JSON j c l m show ?thesis by simp
  qed
  have b: "wbody s \<noteq> Nothing"
    if "hpc s = H_Exit" and "\<exists>r. Unmarshal r \<in> set es"
      and "\<forall>e \<in> set es. \<not> write_failed e"
  proof -
    from that(1) have "returned (hpc s)" by simp
    with u that(2,3) show ?thesis unfolding inv_un_def by blast
  qed
  from a b show ?thesis by blast
qed

theorem C1_witness:
  "run req_init slow_trace = Some slow_state \<and> hpc slow_state = H_Exit \<and>
   Unmarshal (Inr slow_urls) \<in> set slow_trace \<and>
   list_all (\<lambda>e. \<not> write_failed e) slow_trace \<and>
   wbody slow_state = Text timeout \<and> wcode slow_state = Some 404 \<and>
   abort_cause slow_trace timeout"
proof -
  have u: "Unmarshal (Inr slow_urls) \<in> set slow_trace"
    by (simp add: slow_trace_def slow_prefix_def)
  have w: "list_all (\<lambda>e. \<not> write_failed e) slow_trace"
    by (simp add: slow_trace_def slow_prefix_def)
  have s: "hpc slow_state = H_Exit" "wbody slow_state = Text timeout"
    "wcode slow_state = Some 404"
    by (simp_all add: slow_state_def)
  from C1_all_or_nothing [OF slow_run] slow_run u w s show ?thesis by simp
qed

section \<open>Error against completion in the select\<close>


text \<open>The program itself never gets there.\<close>

lemma tie_state_unreachable: "run req_init es \<noteq> Some tie_state"
proof
  assume "run req_init es = Some tie_state"
  then have "inv tie_state" by (rule reach_inv)
  then show False by (simp add: inv_def inv_wg_def tie_state_def)
qed



section \<open>More than twenty URLs\<close>

lemma urls21_small: "length (json_urls urls21) < MaxBodySize"
  by (simp add: urls21_def json_urls_def quoted_def MaxBodySize_def MaxURLs_def)

lemma c5_run: "run req_init c5_trace = Some c5_state"
  by (simp add: c5_trace_def c5_state_def read_small [OF urls21_small] run_defs)
     (simp add: urls21_def)

lemma validate_Inl_many: "MaxURLs < length us \<Longrightarrow> validate (Inr us) = Inl too_many"
  by (simp add: validate_def)

lemma no_fetcher_events:
  assumes "inv_un es s" and "fpc s = []"
  shows "\<forall>e \<in> set es. fetcher_of e = None"
proof
  fix e assume "e \<in> set es"
  with assms show "fetcher_of e = None"
    by (cases "fetcher_of e") (auto simp: inv_un_def)
qed

text \<open>
  C5. If the decoder returned more than 20 URLs then, in every state that follows, no
  Job and no fetcher exists, no event of any fetcher has happened (so no
  \<^verbatim>\<open>client.Do\<close>), the waiter was not started, and the handler is about to send,
  or has sent, status 404 with the message of line 57.
\<close>

theorem C5_too_many_rejected:
  assumes "run req_init es = Some s" and "Unmarshal (Inr us) \<in> set es" and "20 < length us"
  shows "jobs s = [] \<and> fpc s = [] \<and> wpc s = W_None \<and>
         (\<forall>e \<in> set es. fetcher_of e = None) \<and> rejected s too_many"
proof -
  from assms(1) have i: "inv s" and u: "inv_un es s"
    by (rule reach_inv, rule reach_inv_tr)
  from assms(3) have "validate (Inr us) = Inl too_many"
    by (simp add: validate_Inl_many MaxURLs_def)
  with u assms(2) have f: "fpc s = []" and w: "wpc s = W_None" and r: "rejected s too_many"
    unfolding inv_un_def by blast+
  from i f have "jobs s = []" by (simp add: inv_def inv_shape_def)
  with f w r no_fetcher_events [OF u f] show ?thesis by simp
qed

theorem C5_witness:
  "run req_init c5_trace = Some c5_state \<and> length urls21 = 21 \<and>
   Unmarshal (Inr urls21) \<in> set c5_trace \<and>
   fpc c5_state = [] \<and> jobs c5_state = [] \<and>
   wcode c5_state = Some 404 \<and> wbody c5_state = Text too_many"
  using C5_too_many_rejected [OF c5_run, of urls21] c5_run
  by (simp add: c5_state_def c5_trace_def urls21_def)

section \<open>The empty list\<close>

lemma empty_run: "run req_init empty_trace = Some empty_state"
  by (simp add: empty_trace_def empty_state_def read_all_limit_def MaxBodySize_def run_defs)

lemma fetch_error_fetcher: "fetch_error e = Some x \<Longrightarrow> fetcher_of e \<noteq> None"
  by (cases e rule: fetch_error.cases) auto

text \<open>
  C10. If the decoder returned the empty list, the request is not rejected: no error
  branch is ever taken and no error text is sent, no Job, no fetcher and no fetch
  exists, and a body, once written, is the encoding of the nil slice, \<^verbatim>\<open>null\<close>
  and a newline, with status 200. The witness is the schedule that produces it.
\<close>

theorem C10_empty_batch:
  assumes "run req_init es = Some s" and "Unmarshal (Inr []) \<in> set es"
  shows "fpc s = [] \<and> jobs s = [] \<and> (\<forall>e \<in> set es. fetcher_of e = None) \<and>
         (\<forall>x. hpc s \<noteq> H_ErrBranch x \<and> hpc s \<noteq> H_SetClientError x \<and> wbody s \<noteq> Text x) \<and>
         (wbody s = Nothing \<or>
          wbody s = JSON [] \<and> wcode s = Some 200 \<and>
          rendered enc (wbody s) = ''null'' @ [CHR 0x0A])"
proof -
  from assms(1) have i: "inv s" and t: "inv_tr es s" and u: "inv_un es s"
    by (rule reach_inv, (rule reach_inv_tr)+)
  have v: "validate (Inr []) = Inr []" by (simp add: validate_def)
  with u assms(2) have e: "urls s = []" and a: "hpc s = H_Loop \<or> wpc s \<noteq> W_None"
    unfolding inv_un_def by blast+
  from i e have j: "jobs s = []" and f: "fpc s = []"
    by (auto simp: inv_def inv_shape_def)
  have nf: "\<forall>e \<in> set es. fetcher_of e = None" by (rule no_fetcher_events [OF u f])
  have ne: "Some x \<notin> set (map fetch_error es)" for x
  proof
    assume "Some x \<in> set (map fetch_error es)"
    then obtain ev where "ev \<in> set es" and "fetch_error ev = Some x" by auto
    with nf fetch_error_fetcher [of ev x] show False by simp
  qed
  have nr: "Some x \<notin> set (map reject_error es)" for x
  proof
    assume "Some x \<in> set (map reject_error es)"
    then obtain ev where "ev \<in> set es" and "reject_error ev = Some x" by auto
    then obtain r where "Unmarshal r \<in> set es" and "validate r = Inl x"
      by (cases ev rule: reject_error.cases) (auto split: sum.splits)
    with u have "wpc s = W_None" and "rejected s x" unfolding inv_un_def by blast+
    with a show False by (auto simp: rejected_def)
  qed
  from ne nr have na: "\<not> abort_cause es x" for x by (simp add: abort_cause_def)
  from t ne na have "\<forall>x. hpc s \<noteq> H_ErrBranch x \<and> hpc s \<noteq> H_SetClientError x \<and> wbody s \<noteq> Text x"
    unfolding inv_tr_def by blast
  moreover have "wbody s = Nothing \<or>
     wbody s = JSON [] \<and> wcode s = Some 200 \<and> rendered enc (wbody s) = ''null'' @ [CHR 0x0A]"
  proof (cases "wbody s")
    case (JSON js)
    with i j show ?thesis by (auto simp: inv_def inv_resp_def json_Encode_def)
  next
    case (Text x)
    with t na show ?thesis by (auto simp: inv_tr_def)
  qed simp
  ultimately show ?thesis using j f nf by simp
qed

theorem C10_witness:
  "run req_init empty_trace = Some empty_state \<and>
   Unmarshal (Inr []) \<in> set empty_trace \<and>
   wcode empty_state = Some 200 \<and> wbody empty_state = JSON [] \<and>
   rendered (\<lambda>j. []) (wbody empty_state) = ''null'' @ [CHR 0x0A]"
  using C10_empty_batch [OF empty_run, of "\<lambda>j. []"] empty_run
  by (simp add: empty_state_def empty_trace_def)

section \<open>The length of an identifier\<close>


























section \<open>What is left behind after an abort\<close>

lemma bad_small: "length (json_urls bad_urls) < MaxBodySize"
  by (simp add: bad_urls_def json_urls_def quoted_def MaxBodySize_def MaxURLs_def)

lemma mixed_small: "length (json_urls mixed_urls) < MaxBodySize"
  by (simp add: mixed_urls_def json_urls_def quoted_def MaxBodySize_def MaxURLs_def)

lemma leak_run: "run req_init leak_trace = Some leak_state"
  by (simp add: leak_trace_def leak_state_def read_small [OF bad_small] run_defs)
     (simp add: bad_urls_def)

lemma step_after_select:
  assumes "step s e = Some s'" and "after_select (hpc s)"
    and "i < length (fpc s)" and "fpc s ! i = F_SendErr x"
  shows "after_select (hpc s') \<and> i < length (fpc s') \<and> fpc s' ! i = F_SendErr x"
  using assms(1)
  by (cases rule: stepE) (use assms(2-4) in \<open>auto simp: nth_list_update nth_append\<close>)

lemma run_after_select:
  "run s es = Some s' \<Longrightarrow> after_select (hpc s) \<Longrightarrow> i < length (fpc s) \<Longrightarrow>
   fpc s ! i = F_SendErr x \<Longrightarrow>
   after_select (hpc s') \<and> i < length (fpc s') \<and> fpc s' ! i = F_SendErr x"
proof (induction es arbitrary: s)
  case Nil
  then show ?case by simp
next
  case (Cons e es)
  from Cons.prems(1) obtain t where st: "step s e = Some t" and rn: "run t es = Some s'"
    by (auto split: option.splits)
  from step_after_select [OF st Cons.prems(2-4)] Cons.IH [OF rn] show ?case by blast
qed

lemma holder_positive:
  assumes "inv s" and "i < length (fpc s)" and "holds (fpc s ! i)"
  shows "0 < urlSemaphore s"
proof -
  from assms(2,3) have "fpc s ! i \<in> set (filter holds (fpc s))" by simp
  then have "filter holds (fpc s) \<noteq> []" by force
  with assms(1) show ?thesis by (simp add: inv_def inv_sem_def)
qed

text \<open>
  C3 fails on the code. Once the handler has left its select, nothing receives from
  \<^verbatim>\<open>errChan\<close> any more: a fetcher that is blocked in the send of line 127 or 132
  stays there in every continuation of the schedule, still holding its slot of
  \<^verbatim>\<open>urlSemaphore\<close>; and since it never calls \<^verbatim>\<open>wg.Done\<close>, the goroutine of
  lines 79 to 82 never returns from \<^verbatim>\<open>wg.Wait\<close>.
\<close>

theorem C3_blocked_sender_never_released:
  assumes "run req_init es = Some s" and "after_select (hpc s)"
    and "i < length (fpc s)" and "fpc s ! i = F_SendErr x" and "run s es' = Some s'"
  shows "fpc s' ! i = F_SendErr x \<and> 0 < urlSemaphore s' \<and> 0 < wg s' \<and> wpc s' = W_Wait"
proof -
  from assms(1,5) have r: "run req_init (es @ es') = Some s'" by (simp add: run_append)
  then have i: "inv s'" by (rule reach_inv)
  from run_after_select [OF assms(5,2,3,4)]
  have a: "after_select (hpc s')" and l: "i < length (fpc s')" and f: "fpc s' ! i = F_SendErr x"
    by simp_all
  from i l f have sem: "0 < urlSemaphore s'" by (intro holder_positive [of s' i]) simp_all
  from f have nd: "\<not> done_ok (fpc s' ! i)" by simp
  with fin_all_done [of s' i] i l have w: "wpc s' \<noteq> W_Send \<and> wpc s' \<noteq> W_Exit"
    by (auto simp: inv_def)
  from l a i have "wpc s' \<noteq> W_None"
    by (cases "hpc s'") (auto simp: inv_def inv_shape_def)
  with w have ww: "wpc s' = W_Wait" by (cases "wpc s'") simp_all
  from l nd have "length (filter done_ok (fpc s')) < length (fpc s')"
    by (rule not_done_less)
  with i have "0 < wg s'" by (simp add: inv_def inv_wg_def inv_shape_def)
  with f sem ww show ?thesis by simp
qed

theorem C3_witness:
  "run req_init leak_trace = Some leak_state \<and> hpc leak_state = H_Exit \<and>
   fpc leak_state ! 1 = F_SendErr no_host \<and>
   run leak_state [Cancel] = Some (leak_state\<lparr>cancelled := True\<rparr>) \<and>
   fpc (leak_state\<lparr>cancelled := True\<rparr>) ! 1 = F_SendErr no_host \<and>
   0 < urlSemaphore (leak_state\<lparr>cancelled := True\<rparr>) \<and>
   wpc (leak_state\<lparr>cancelled := True\<rparr>) = W_Wait"
proof -
  have c: "run leak_state [Cancel] = Some (leak_state\<lparr>cancelled := True\<rparr>)"
    by (simp add: leak_state_def)
  have "after_select (hpc leak_state)" "1 < length (fpc leak_state)"
    "fpc leak_state ! 1 = F_SendErr no_host"
    by (simp_all add: leak_state_def)
  from C3_blocked_sender_never_released [OF leak_run this c] leak_run c
  show ?thesis by (simp add: leak_state_def)
qed

text \<open>In that state nothing can happen any more but the cancellation of the context.\<close>

lemma leak_state_quiet: "step leak_state e = None \<or> e = Cancel"
  by (cases e) (auto simp: leak_state_def nth_Cons split: nat.splits)

text \<open>
  C4 fails on the code. The error branch of the select evaluates
  \<^verbatim>\<open>r.Context().Done()\<close>, which cancels nothing: in the schedule below the handler
  has received the first fetcher's error and passed line 86, the context is not
  cancelled, and the second fetcher completes its call, writes status 200 into its
  Job and releases its slot; the handler answers 404.
\<close>

theorem C4_no_cancellation_after_error:
  "run req_init c4_trace = Some c4_state \<and> cancelled c4_state = False \<and>
   wbody c4_state = Text no_host \<and> Status (jobs c4_state ! 1) = 200 \<and>
   fpc c4_state ! 1 = F_Exit RetOk"
proof -
  have "run req_init c4_trace = Some c4_state"
    by (simp add: c4_trace_def c4_state_def read_small [OF mixed_small] run_defs)
       (simp add: mixed_urls_def)
  then show ?thesis by (simp add: c4_state_def)
qed

text \<open>No step of the handler or of a fetcher cancels the context.\<close>

lemma only_Cancel_cancels:
  "step s e = Some s' \<Longrightarrow> cancelled s' = (cancelled s \<or> e = Cancel)"
  by (cases rule: stepE) auto

section \<open>The limit of a hundred requests\<close>

lemma step_admitted:
  assumes "step q e = Some q'"
  shows "if e = Admit then \<not> admitted (hpc q) \<and> admitted (hpc q')
         else if e = ReleaseReq then admitted (hpc q) \<and> \<not> admitted (hpc q')
         else admitted (hpc q') = admitted (hpc q)"
  using assms by (cases rule: stepE) auto

lemma sys_step_inv:
  assumes "sys_inv S" and "sys_step S x = Some S'"
  shows "sys_inv S'"
proof -
  obtain r e where x: "x = (r, e)" by (cases x)
  from assms(2) x obtain q where r: "r < length (reqs S)" and q: "step (reqs S ! r) e = Some q"
    by (auto split: if_splits option.splits)
  let ?P = "\<lambda>q. admitted (hpc q)"
  note a = step_admitted [OF q]
  show ?thesis
  proof (cases "e = Admit")
    case True
    with assms(2) x r q have S': "S' = \<lparr>reqSemaphore = reqSemaphore S + 1, reqs = (reqs S)[r := q]\<rparr>"
      and lt: "reqSemaphore S < MaxSimultaneousRequests"
      by (auto split: if_splits)
    from a True r have "length (filter ?P ((reqs S)[r := q])) = Suc (length (filter ?P (reqs S)))"
      by (simp add: filter_update_gain)
    with assms(1) S' lt show ?thesis by (simp add: sys_inv_def running_def)
  next
    case False
    show ?thesis
    proof (cases "e = ReleaseReq")
      case True
      with assms(2) x r q have S': "S' = \<lparr>reqSemaphore = reqSemaphore S - 1, reqs = (reqs S)[r := q]\<rparr>"
        by (auto split: if_splits)
      from a True r have "Suc (length (filter ?P ((reqs S)[r := q]))) = length (filter ?P (reqs S))"
        by (simp add: filter_update_lose)
      with assms(1) S' show ?thesis by (auto simp: sys_inv_def running_def)
    next
      case nr: False
      with False assms(2) x r q have S': "S' = \<lparr>reqSemaphore = reqSemaphore S, reqs = (reqs S)[r := q]\<rparr>"
        by (auto split: if_splits)
      from a False nr r have "length (filter ?P ((reqs S)[r := q])) = length (filter ?P (reqs S))"
        by (simp add: filter_update_same)
      with assms(1) S' show ?thesis by (simp add: sys_inv_def running_def)
    qed
  qed
qed

lemma sys_run_inv: "sys_inv S \<Longrightarrow> sys_run S xs = Some S' \<Longrightarrow> sys_inv S'"
  by (induction xs arbitrary: S) (auto split: option.splits dest: sys_step_inv)

lemma sys_init_inv: "sys_inv (sys_init n)"
  by (simp add: sys_inv_def running_def sys_init_def req_init_def)

lemma running_positive:
  assumes "sys_inv S" and "r < length (reqs S)" and "admitted (hpc (reqs S ! r))"
  shows "0 < reqSemaphore S"
proof -
  from assms(2,3) have "reqs S ! r \<in> set (filter (\<lambda>q. admitted (hpc q)) (reqs S))" by simp
  then have "filter (\<lambda>q. admitted (hpc q)) (reqs S) \<noteq> []" by force
  with assms(1) show ?thesis by (simp add: sys_inv_def running_def)
qed

text \<open>
  C7. In every state of the system the requests that hold a slot of
  \<^verbatim>\<open>reqSemaphore\<close> are exactly the admitted ones that have not yet run their deferred
  receive, and they number at most 100. A request waiting at line 40 is blocked exactly
  when 100 are running, and can proceed as soon as fewer are. A handler whose body has
  ended, by any \<^verbatim>\<open>return\<close> or by a panic, can always run the deferred receive,
  which frees one slot.
\<close>

theorem C7_at_most_hundred_running:
  assumes "sys_run (sys_init n) xs = Some S"
  shows "running S \<le> 100 \<and> reqSemaphore S = running S \<and>
         (\<forall>r<length (reqs S). hpc (reqs S ! r) = H_Acquire \<longrightarrow>
            (sys_step S (r, Admit) = None) = (running S = 100)) \<and>
         (\<forall>r<length (reqs S). \<forall>p. hpc (reqs S ! r) = H_Defer p \<longrightarrow>
            sys_step S (r, ReleaseReq) =
              Some \<lparr>reqSemaphore = running S - 1, reqs = (reqs S)[r := (reqs S ! r)\<lparr>hpc := H_Exit\<rparr>]\<rparr>)"
proof -
  from assms have i: "sys_inv S" by (rule sys_run_inv [OF sys_init_inv])
  then have a: "running S \<le> 100" and b: "reqSemaphore S = running S"
    by (simp_all add: sys_inv_def MaxSimultaneousRequests_def)
  have c: "(sys_step S (r, Admit) = None) = (running S = 100)"
    if "r < length (reqs S)" and "hpc (reqs S ! r) = H_Acquire" for r
    using that a b by (auto simp: MaxSimultaneousRequests_def)
  have d: "sys_step S (r, ReleaseReq) =
      Some \<lparr>reqSemaphore = running S - 1, reqs = (reqs S)[r := (reqs S ! r)\<lparr>hpc := H_Exit\<rparr>]\<rparr>"
    if "r < length (reqs S)" and "hpc (reqs S ! r) = H_Defer p" for r p
  proof -
    from that have "admitted (hpc (reqs S ! r))" by simp
    with i that(1) have "0 < reqSemaphore S" by (rule running_positive)
    with that b show ?thesis by simp
  qed
  from a b c d show ?thesis by blast
qed

lemma sys_run_append:
  "sys_run S (xs @ ys) = (case sys_run S xs of None \<Rightarrow> None | Some S' \<Rightarrow> sys_run S' ys)"
  by (induction xs arbitrary: S) (auto split: option.splits)

lemma admit_run:
  "k \<le> n \<Longrightarrow> k \<le> MaxSimultaneousRequests \<Longrightarrow>
   sys_run (sys_init n) (admit_first k) =
     Some \<lparr>reqSemaphore = k,
           reqs = replicate k (req_init\<lparr>hpc := H_ReadAll\<rparr>) @ replicate (n - k) req_init\<rparr>"
proof (induction k)
  case 0
  then show ?case by (simp add: admit_first_def sys_init_def)
next
  case (Suc k)
  let ?a = "req_init\<lparr>hpc := H_ReadAll\<rparr>"
  from Suc.prems obtain m where m: "n - k = Suc m" and m': "n - Suc k = m"
    by (metis Suc_diff_Suc Suc_le_lessD)
  have u: "(replicate k ?a @ req_init # replicate m req_init)[k := ?a]
           = replicate (Suc k) ?a @ replicate m req_init"
    by (simp add: list_update_append replicate_append_same)
  have n: "(replicate k ?a @ req_init # replicate m req_init) ! k = req_init"
    by (simp add: nth_append)
  have h: "hpc req_init = H_Acquire" by (simp add: req_init_def)
  from Suc show ?case
    by (simp add: admit_first_def sys_run_append m m' h u n)
qed

lemma full_run: "sys_run (sys_init 101) (admit_first 100) = Some full"
  using admit_run [of 100 101] by (simp add: full_def MaxSimultaneousRequests_def)

lemma refill_run:
  "sys_run full [(0, ReadAll [] (Some ''unexpected EOF'')), (0, ReleaseReq), (100, Admit)]
     = Some refilled"
  by (simp add: full_def refilled_def nth_append list_update_append req_init_def
      read_all_limit_def MaxBodySize_def MaxSimultaneousRequests_def)

theorem C7_witness:
  "sys_run (sys_init 101) (admit_first 100) = Some full \<and> running full = 100 \<and>
   hpc (reqs full ! 100) = H_Acquire \<and> sys_step full (100, Admit) = None \<and>
   sys_run full [(0, ReadAll [] (Some ''unexpected EOF'')), (0, ReleaseReq), (100, Admit)]
     = Some refilled"
proof -
  have "length (reqs full) = 101" and "hpc (reqs full ! 100) = H_Acquire"
    by (simp_all add: full_def nth_append req_init_def)
  with C7_at_most_hundred_running [OF full_run] full_run refill_run
  show ?thesis by (auto simp: running_def full_def req_init_def)
qed

text \<open>Every request of the system is a run of the single-request model, so what is
  proved of \<open>run req_init\<close> holds of each request.\<close>

lemma sys_step_reqs:
  assumes "sys_step S x = Some S'"
    and "\<forall>r<length (reqs S). \<exists>es. run req_init es = Some (reqs S ! r)"
  shows "length (reqs S') = length (reqs S) \<and>
         (\<forall>r<length (reqs S'). \<exists>es. run req_init es = Some (reqs S' ! r))"
proof -
  obtain k e where x: "x = (k, e)" by (cases x)
  from assms(1) x obtain q where k: "k < length (reqs S)" and q: "step (reqs S ! k) e = Some q"
    and S': "reqs S' = (reqs S)[k := q]"
    by (auto split: if_splits option.splits)
  from assms(2) k obtain es where "run req_init es = Some (reqs S ! k)" by blast
  with q have "run req_init (es @ [e]) = Some q" by (simp add: run_append)
  with assms(2) S' show ?thesis
    by (metis length_list_update nth_list_update_eq nth_list_update_neq)
qed

lemma sys_run_reqs:
  "sys_run S xs = Some S' \<Longrightarrow>
   \<forall>r<length (reqs S). \<exists>es. run req_init es = Some (reqs S ! r) \<Longrightarrow>
   length (reqs S') = length (reqs S) \<and>
   (\<forall>r<length (reqs S'). \<exists>es. run req_init es = Some (reqs S' ! r))"
proof (induction xs arbitrary: S)
  case Nil
  then show ?case by simp
next
  case (Cons x xs)
  from Cons.prems(1) obtain T where st: "sys_step S x = Some T" and rn: "sys_run T xs = Some S'"
    by (auto split: option.splits)
  from sys_step_reqs [OF st Cons.prems(2)] Cons.IH [OF rn] show ?case by simp
qed

lemma sys_requests_are_runs:
  assumes "sys_run (sys_init n) xs = Some S" and "r < n"
  shows "length (reqs S) = n \<and> (\<exists>es. run req_init es = Some (reqs S ! r))"
proof -
  have "\<forall>r<length (reqs (sys_init n)). \<exists>es. run req_init es = Some (reqs (sys_init n) ! r)"
    by (auto simp: sys_init_def intro: exI [of _ "[]"])
  from sys_run_reqs [OF assms(1) this] assms(2) show ?thesis by (simp add: sys_init_def)
qed

section \<open>The handler always comes to its end\<close>

lemma exists_not:
  "length (filter P xs) < length xs \<Longrightarrow> \<exists>i<length xs. \<not> P (xs ! i)"
proof (rule ccontr)
  assume a: "length (filter P xs) < length xs" and "\<not> (\<exists>i<length xs. \<not> P (xs ! i))"
  then have "\<forall>x \<in> set xs. P x" by (auto simp: in_set_conv_nth)
  then have "filter P xs = xs" by simp
  with a show False by simp
qed

lemma exists_holder:
  "0 < length (filter P xs) \<Longrightarrow> \<exists>i<length xs. P (xs ! i)"
proof -
  assume "0 < length (filter P xs)"
  then obtain x where "x \<in> set (filter P xs)" by (cases "filter P xs") auto
  then have "x \<in> set xs" and "P x" by simp_all
  then show ?thesis by (auto simp: in_set_conv_nth)
qed

lemma idle_is_acquire:
  assumes "\<not> holds pc" and "\<not> done_ok pc" and "\<not> failed_end pc" and "\<not> panicked pc"
  shows "pc = F_Acquire"
proof (cases pc)
  case (F_Exit x)
  with assms show ?thesis by (cases x) simp_all
qed (use assms in simp_all)

lemma can_step:
  "step s e \<noteq> None \<Longrightarrow> e \<noteq> Cancel \<Longrightarrow> \<exists>e s'. e \<noteq> Cancel \<and> step s e = Some s'"
  by (cases "step s e") auto

text \<open>A fetcher that holds a slot can take a step while the handler is at its select.\<close>

lemma holder_can_step:
  assumes "inv s" and "hpc s = H_Select" and "j < length (fpc s)" and "holds (fpc s ! j)"
  shows "\<exists>e s'. e \<noteq> Cancel \<and> step s e = Some s'"
proof -
  from assms(1,3,4) have sem: "0 < urlSemaphore s" by (rule holder_positive)
  from assms(1,3) have jl: "j < length (jobs s)" by (simp add: inv_def inv_shape_def)
  show ?thesis
  proof (cases "fpc s ! j")
    case F_Acquire
    with assms(4) show ?thesis by simp
  next
    case F_NewRequest
    with assms(3) have "step s (NewRequest j None) \<noteq> None" by simp
    then show ?thesis by (rule can_step) simp
  next
    case F_Do
    with assms(3) have "step s (Do j (Inl [])) \<noteq> None" by simp
    then show ?thesis by (rule can_step) simp
  next
    case (F_SendErr x)
    with assms(2,3) have "step s (RecvErr j) \<noteq> None" by simp
    then show ?thesis by (rule can_step) simp
  next
    case (F_SetStatus c)
    with assms(3) jl have "step s (SetStatus j) \<noteq> None" by simp
    then show ?thesis by (rule can_step) simp
  next
    case F_WgDone
    with assms(3) have "step s (WgDone j) \<noteq> None" by simp
    then show ?thesis by (rule can_step) simp
  next
    case (F_Defer x)
    with assms(3) sem have "step s (Release j) \<noteq> None" by simp
    then show ?thesis by (rule can_step) simp
  next
    case (F_Exit x)
    with assms(4) show ?thesis by simp
  qed
qed

lemma select_can_step:
  assumes "inv s" and "hpc s = H_Select"
  shows "\<exists>e s'. e \<noteq> Cancel \<and> step s e = Some s'"
proof -
  from assms have w: "wpc s = W_Wait \<or> wpc s = W_Send"
    by (simp add: inv_def inv_fail_def)
  show ?thesis
  proof (cases "wpc s = W_Send")
    case True
    with assms(2) have "step s RecvFin \<noteq> None" by simp
    then show ?thesis by (rule can_step) simp
  next
    case False
    with w have ww: "wpc s = W_Wait" by simp
    show ?thesis
    proof (cases "wg s = 0")
      case True
      with ww have "step s WaitReturns \<noteq> None" by simp
      then show ?thesis by (rule can_step) simp
    next
      case False
      from assms(1) ww have l: "length (fpc s) = length (urls s)"
        by (simp add: inv_def inv_shape_def)
      from assms(1) have "wg s + int (length (filter done_ok (fpc s))) = int (length (urls s))"
        by (simp add: inv_def inv_wg_def)
      with False l have "length (filter done_ok (fpc s)) < length (fpc s)"
        using length_filter_le [of done_ok "fpc s"] by linarith
      then obtain i where i: "i < length (fpc s)" and nd: "\<not> done_ok (fpc s ! i)"
        using exists_not [of done_ok "fpc s"] by auto
      from assms i have nf: "\<not> failed_end (fpc s ! i)"
        by (auto simp: inv_def inv_fail_def)
      from assms(1) i have np: "\<not> panicked (fpc s ! i)"
        by (auto simp: inv_def inv_wg_def)
      show ?thesis
      proof (cases "holds (fpc s ! i)")
        case True
        with assms i show ?thesis by (rule holder_can_step)
      next
        case nh: False
        with nd nf np have a: "fpc s ! i = F_Acquire"
          by (intro idle_is_acquire)
        show ?thesis
        proof (cases "urlSemaphore s < MaxSimultaneousConnectionsPerRequest")
          case True
          with i a have "step s (Acquire i) \<noteq> None" by simp
          then show ?thesis by (rule can_step) simp
        next
          case False
          with assms(1) have "4 \<le> length (filter holds (fpc s))"
            by (simp add: inv_def inv_sem_def MaxSimultaneousConnectionsPerRequest_def)
          then have "0 < length (filter holds (fpc s))" by linarith
          then obtain j where "j < length (fpc s)" and "holds (fpc s ! j)"
            using exists_holder [of holds "fpc s"] by auto
          with assms show ?thesis by (rule holder_can_step)
        qed
      qed
    qed
  qed
qed

text \<open>
  As long as the handler of a request has not returned, some goroutine of the request
  can take a step (other than the cancellation of the context): before the handler
  has received from \<^verbatim>\<open>errChan\<close> or \<^verbatim>\<open>finChan\<close> the request cannot deadlock.
\<close>

theorem handler_never_stuck:
  assumes "run req_init es = Some s" and "hpc s \<noteq> H_Exit"
  shows "\<exists>e s'. e \<noteq> Cancel \<and> step s e = Some s'"
proof -
  from assms(1) have i: "inv s" by (rule reach_inv)
  show ?thesis
  proof (cases "hpc s")
    case H_Acquire
    then have "step s Admit \<noteq> None" by simp
    then show ?thesis by (rule can_step) simp
  next
    case H_ReadAll
    then have "step s (ReadAll [] None) \<noteq> None"
      by (simp add: read_all_limit_def MaxBodySize_def)
    then show ?thesis by (rule can_step) simp
  next
    case H_CloseBody
    then have "step s (CloseBody None) \<noteq> None" by simp
    then show ?thesis by (rule can_step) simp
  next
    case H_Unmarshal
    then have "step s (Unmarshal (Inr [])) \<noteq> None" by (simp add: validate_def)
    then show ?thesis by (rule can_step) simp
  next
    case H_Loop
    then have "step s Spawn \<noteq> None \<or> step s GoWaiter \<noteq> None" by simp
    then show ?thesis using can_step [of s Spawn] can_step [of s GoWaiter] by auto
  next
    case H_Select
    with i show ?thesis by (rule select_can_step)
  next
    case (H_ErrBranch x)
    then have "step s CtxDone \<noteq> None" by simp
    then show ?thesis by (rule can_step) simp
  next
    case H_FinBranch
    then have "step s (Encode None) \<noteq> None" by simp
    then show ?thesis by (rule can_step) simp
  next
    case (H_SetClientError x)
    then have "step s (WriteError None) \<noteq> None" by simp
    then show ?thesis by (rule can_step) simp
  next
    case (H_Defer p)
    then have "step s ReleaseReq \<noteq> None" by simp
    then show ?thesis by (rule can_step) simp
  next
    case H_Exit
    with assms(2) show ?thesis by simp
  qed
qed

lemma sum_list_map_update:
  "i < length xs \<Longrightarrow>
   sum_list (map f (xs[i := y])) + f (xs ! i) = sum_list (map f xs) + (f y :: nat)"
proof (induction xs arbitrary: i)
  case Nil
  then show ?case by simp
next
  case (Cons x xs)
  then show ?case by (cases i) auto
qed

lemma rank_frame:
  assumes "fpc s' = (fpc s)[i := y]" and "i < length (fpc s)"
    and "frank (fpc s ! i) < frank y" and "hrank (hpc s) \<le> hrank (hpc s')"
    and "length (jobs s') = length (jobs s)" and "wpc s' = wpc s"
    and "cancelled s' = cancelled s"
  shows "steps_done s < steps_done s'"
  using sum_list_map_update [OF assms(2), of frank y] assms
  by (simp add: steps_done_def)

lemma step_rank:
  assumes "inv_shape s" and "step s e = Some s'"
  shows "steps_done s < steps_done s'"
  using assms(2)
proof (cases rule: stepE)
  case (RecvErr i x)
  then show ?thesis by (intro rank_frame [of s' s i "F_Defer RetErr"]) simp_all
next
  case (Acquire i)
  then show ?thesis by (intro rank_frame [of s' s i F_NewRequest]) simp_all
next
  case (NewRequestOk i)
  then show ?thesis by (intro rank_frame [of s' s i F_Do]) simp_all
next
  case (NewRequestErr i x)
  then show ?thesis by (intro rank_frame [of s' s i "F_SendErr x"]) simp_all
next
  case (DoErr i x)
  then show ?thesis by (intro rank_frame [of s' s i "F_SendErr x"]) simp_all
next
  case (DoOk i c)
  then show ?thesis by (intro rank_frame [of s' s i "F_SetStatus c"]) simp_all
next
  case (SetStatus i c)
  then show ?thesis by (intro rank_frame [of s' s i F_WgDone]) simp_all
next
  case (WgDone i)
  then show ?thesis
    by (intro rank_frame [of s' s i "F_Defer (if wg s - 1 < 0 then Panic else RetOk)"]) simp_all
next
  case (Release i x)
  then show ?thesis by (intro rank_frame [of s' s i "F_Exit x"]) simp_all
qed (use assms(1) in \<open>auto simp: steps_done_def inv_shape_def\<close>)

lemma run_rank:
  "inv s \<Longrightarrow> run s es = Some s' \<Longrightarrow> steps_done s + length es \<le> steps_done s'"
proof (induction es arbitrary: s)
  case Nil
  then show ?case by simp
next
  case (Cons e es)
  from Cons.prems(2) obtain t where st: "step s e = Some t" and rn: "run t es = Some s'"
    by (auto split: option.splits)
  from Cons.prems(1) st have "inv t" by (rule step_inv)
  from Cons.IH [OF this rn] step_rank [OF _ st] Cons.prems(1) show ?case
    by (simp add: inv_def)
qed

lemma frank_sum_le: "sum_list (map frank xs) \<le> 6 * length xs"
proof (induction xs)
  case Nil
  then show ?case by simp
next
  case (Cons x xs)
  have "frank x \<le> 6" by (cases x) simp_all
  with Cons show ?case by simp
qed

lemma rank_bound:
  assumes "inv s"
  shows "steps_done s \<le> 12 + 7 * length (urls s)"
proof -
  have h: "hrank (hpc s) \<le> 9" by (cases "hpc s") simp_all
  have w: "wrank (wpc s) \<le> 2" by (cases "wpc s") simp_all
  from assms have l: "length (fpc s) = length (jobs s)" "length (jobs s) \<le> length (urls s)"
    by (simp_all add: inv_def inv_shape_def)
  from h w l frank_sum_le [of "fpc s"] show ?thesis
    by (simp add: steps_done_def)
qed

text \<open>
  Every event moves some goroutine forward, so a schedule of a request with \<open>n\<close> URLs
  has at most \<open>12 + 7 * n\<close> events, and \<open>n\<close> is at most 20.
\<close>

theorem schedules_are_bounded:
  assumes "run req_init es = Some s"
  shows "length es \<le> 12 + 7 * length (urls s) \<and> length (urls s) \<le> 20"
proof -
  from assms have i: "inv s" by (rule reach_inv)
  have "steps_done req_init = 0" by (simp add: steps_done_def req_init_def)
  with run_rank [OF inv_init assms] rank_bound [OF i] i show ?thesis
    by (simp add: inv_def inv_shape_def MaxURLs_def)
qed

text \<open>So a schedule that cannot be continued has the handler at its end.\<close>

corollary finished_schedule_has_returned:
  assumes "run req_init es = Some s" and "\<forall>e. e \<noteq> Cancel \<longrightarrow> step s e = None"
  shows "hpc s = H_Exit"
  using handler_never_stuck [OF assms(1)] assms(2) by fastforce

end
